theory Spec2Isabelle
  imports Complex_Main
begin

section \<open>Strings, decimal numbers and paths\<close>

text \<open>
  A Python string is modelled as a \<^typ>\<open>string\<close>: a list of characters, each a code point
  below 256. In that range the regular expression class \<^verbatim>\<open>\d\<close> matches exactly the
  ten ASCII digits, \<^verbatim>\<open>.\<close> matches every character but the line feed, and matching
  under \<^verbatim>\<open>re.IGNORECASE\<close> relates \<^verbatim>\<open>v\<close>, \<^verbatim>\<open>n\<close>, \<^verbatim>\<open>k\<close> only to their capitals.
\<close>

definition newline :: char where
  "newline = CHR 0x0A"

definition is_digit :: "char \<Rightarrow> bool" where
  "is_digit c \<longleftrightarrow> (48::nat) \<le> of_char c \<and> of_char c \<le> (57::nat)"

text \<open>\<^verbatim>\<open>int(version_num)\<close> on a string of decimal digits.\<close>

definition int_of_digits :: "string \<Rightarrow> nat" where
  "int_of_digits ds = foldl (\<lambda>a c. 10 * a + (of_char c - 48)) 0 ds"

text \<open>\<^verbatim>\<open>str(n)\<close> for a non-negative integer: its decimal digits, most significant first.\<close>

function digits_of :: "nat \<Rightarrow> string" where
  "digits_of n =
     (if n < 10 then [char_of (48 + n)]
      else digits_of (n div 10) @ [char_of (48 + n mod 10)])"
  by pat_completeness auto
termination
  by (relation "measure (\<lambda>n. n)") auto

declare digits_of.simps [simp del]

text \<open>The format specification \<^verbatim>\<open>03d\<close>: the decimal digits, filled with zeros on the
  left up to width 3; a number of more than 3 digits is not cut.\<close>

definition format_03d :: "nat \<Rightarrow> string" where
  "format_03d n = (let s = digits_of n in replicate (3 - length s) (CHR ''0'') @ s)"

text \<open>\<^verbatim>\<open>str.lower()\<close> on code points below 256: the ASCII capitals and the capitals of
  Latin-1 (192 to 222, without the multiplication sign 215) move up by 32.\<close>

definition lower_char :: "char \<Rightarrow> char" where
  "lower_char c =
     (let n = (of_char c :: nat) in
      if (65 \<le> n \<and> n \<le> 90) \<or> (192 \<le> n \<and> n \<le> 222 \<and> n \<noteq> 215) then char_of (n + 32) else c)"

definition lower :: "string \<Rightarrow> string" where
  "lower s = map lower_char s"

text \<open>\<^verbatim>\<open>p.rfind(c)\<close>: the index of the last occurrence of \<open>c\<close>, or \<open>-1\<close>.\<close>

definition rfind :: "string \<Rightarrow> char \<Rightarrow> int" where
  "rfind p c = int (length (dropWhile (\<lambda>x. x \<noteq> c) (rev p))) - 1"

definition rstrip :: "char \<Rightarrow> string \<Rightarrow> string" where
  "rstrip c s = rev (dropWhile (\<lambda>x. x = c) (rev s))"

text \<open>
  The functions of \<^verbatim>\<open>os.path\<close> are those of \<^verbatim>\<open>posixpath\<close>, with the separator
  \<^verbatim>\<open>/\<close>.
\<close>

definition dirname :: "string \<Rightarrow> string" where
  "dirname p =
     (let i = nat (rfind p (CHR ''/'') + 1);
          head = take i p
      in if head \<noteq> [] \<and> head \<noteq> replicate (length head) (CHR ''/'')
         then rstrip (CHR ''/'') head else head)"

definition basename :: "string \<Rightarrow> string" where
  "basename p = (let i = nat (rfind p (CHR ''/'') + 1) in drop i p)"

definition join :: "string \<Rightarrow> string \<Rightarrow> string" where
  "join a b =
     (if b \<noteq> [] \<and> hd b = CHR ''/'' then b
      else if a = [] \<or> last a = CHR ''/'' then a @ b
      else a @ ''/'' @ b)"

text \<open>
  \<^verbatim>\<open>os.path.splitext\<close>: the extension starts at the last dot, provided that dot comes
  after the last separator and some character between the separator and the dot is
  not a dot; otherwise the extension is empty.
\<close>

definition splitext :: "string \<Rightarrow> string \<times> string" where
  "splitext p =
     (let sepIndex = rfind p (CHR ''/'');
          dotIndex = rfind p (CHR ''.'')
      in if dotIndex > sepIndex \<and>
            (\<exists>c \<in> set (take (nat (dotIndex - (sepIndex + 1))) (drop (nat (sepIndex + 1)) p)).
               c \<noteq> CHR ''.'')
         then (take (nat dotIndex) p, drop (nat dotIndex) p)
         else (p, []))"

section \<open>The version pattern\<close>

text \<open>
  \<^verbatim>\<open>re.search(r'(.+?)(\.v)(\d+)(\.nk)$', base_name, re.IGNORECASE)\<close>.

  \<open>match_tail s\<close> matches \<^verbatim>\<open>(\.v)(\d+)(\.nk)$\<close> at the start of \<open>s\<close>. The greedy
  \<^verbatim>\<open>\d+\<close> takes the whole run of digits: the next character has to be a dot, so no
  shorter run can succeed. \<^verbatim>\<open>$\<close> holds at the end of the string and also just before
  a line feed that ends the string.
\<close>

definition is_nk_ext :: "string \<Rightarrow> bool" where
  "is_nk_ext e \<longleftrightarrow>
     (case e of
        [a, b, c] \<Rightarrow> a = CHR ''.'' \<and> (b = CHR ''n'' \<or> b = CHR ''N'') \<and> (c = CHR ''k'' \<or> c = CHR ''K'')
      | _ \<Rightarrow> False)"

definition match_tail :: "string \<Rightarrow> (string \<times> string \<times> string) option" where
  "match_tail s =
     (case s of
        d # v # rest \<Rightarrow>
          if d = CHR ''.'' \<and> (v = CHR ''v'' \<or> v = CHR ''V'') then
            (let version_num = takeWhile is_digit rest;
                 r = dropWhile is_digit rest
             in if version_num \<noteq> [] \<and> is_nk_ext (take 3 r) \<and> (drop 3 r = [] \<or> drop 3 r = [newline])
                then Some ([d, v], version_num, take 3 r) else None)
          else None
      | _ \<Rightarrow> None)"

text \<open>
  \<open>match_from name s\<close> is the lazy group \<^verbatim>\<open>(.+?)\<close> that has taken \<open>name\<close> so far: it
  takes one more character, which must not be a line feed, tries the rest of the pattern,
  and takes more only when that fails.
\<close>

fun match_from :: "string \<Rightarrow> string \<Rightarrow> (string \<times> string \<times> string \<times> string) option" where
  "match_from name [] = None"
| "match_from name (c # cs) =
     (if c = newline then None
      else (case match_tail cs of
              Some (v_part, version_num, ext_part) \<Rightarrow> Some (name @ [c], v_part, version_num, ext_part)
            | None \<Rightarrow> match_from (name @ [c]) cs))"

text \<open>\<^verbatim>\<open>re.search\<close> tries the start positions from left to right.\<close>

fun re_search :: "string \<Rightarrow> (string \<times> string \<times> string \<times> string) option" where
  "re_search [] = None"
| "re_search (c # cs) =
     (case match_from [] (c # cs) of
        Some m \<Rightarrow> Some m
      | None \<Rightarrow> re_search cs)"

section \<open>The next version path\<close>

text \<open>\<^verbatim>\<open>AutoSaverCallbacks._get_next_version_path\<close> of \<^verbatim>\<open>versionUp.py\<close>.\<close>

definition get_next_version_path :: "string \<Rightarrow> string" where
  "get_next_version_path script_path =
     (let script_dir = dirname script_path;
          base_name = basename script_path;
          new_name =
            (case re_search base_name of
               Some (name_part, v_part, version_num, ext_part) \<Rightarrow>
                 (let next_version = int_of_digits version_num + 1
                  in name_part @ v_part @ format_03d next_version @ ext_part)
             | None \<Rightarrow>
                 (let (name_part, ext_part) = splitext base_name
                  in name_part @ ''.v001'' @ ext_part))
      in join script_dir new_name)"

text \<open>The shapes of the groups of a match, used to state what the search finds.\<close>

definition is_v_part :: "string \<Rightarrow> bool" where
  "is_v_part v \<longleftrightarrow> v = ''.v'' \<or> v = ''.V''"

definition all_digits :: "string \<Rightarrow> bool" where
  "all_digits n \<longleftrightarrow> n \<noteq> [] \<and> (\<forall>c \<in> set n. is_digit c)"

text \<open>
  A base name has a version suffix when, a final line feed set aside, it ends in: a
  character that is not a line feed, a dot, the letter v in either case, one or more
  digits, and the extension \<open>.nk\<close> in either case. These are the names that the pattern
  matches.
\<close>

definition has_version_suffix :: "string \<Rightarrow> bool" where
  "has_version_suffix b \<longleftrightarrow>
     (let body = (if b \<noteq> [] \<and> last b = newline then butlast b else b);
          r = rev body;
          ext = rev (take 3 r);
          digits = takeWhile is_digit (drop 3 r);
          rest = dropWhile is_digit (drop 3 r)
      in is_nk_ext ext \<and> digits \<noteq> [] \<and>
         (case rest of
            v # d # c # front \<Rightarrow> (v = CHR ''v'' \<or> v = CHR ''V'') \<and> d = CHR ''.'' \<and> c \<noteq> newline
          | _ \<Rightarrow> False))"

text \<open>The version number that the pattern reads off the base name of a path, if it matches.\<close>

definition version_of :: "string \<Rightarrow> nat option" where
  "version_of p =
     (case re_search (basename p) of
        Some (name_part, v_part, version_num, ext_part) \<Rightarrow> Some (int_of_digits version_num)
      | None \<Rightarrow> None)"

section \<open>The auto-saver and its host\<close>

text \<open>
  The state holds the attributes of the \<^verbatim>\<open>AutoSaverCallbacks\<close> object and what the
  methods read from and do to their surroundings:
  \<^item> \<open>clock\<close> and \<open>ticks\<close>: the \<open>k\<close>-th call of \<^verbatim>\<open>time.time()\<close> returns \<open>clock k\<close>, and
    \<open>ticks\<close> counts the calls made so far;
  \<^item> \<open>root_name\<close>: what \<^verbatim>\<open>nuke.root().name()\<close> returns;
  \<^item> \<open>timers\<close>: the \<^verbatim>\<open>threading.Timer\<close> objects created so far, each with its status;
    the attribute \<open>timer\<close> refers to one of them by its index, or is \<^verbatim>\<open>None\<close>;
  \<^item> \<open>trace\<close>: the calls made to the host and to the timers, and the lines printed, in
    order. Of a printed line the trace keeps which line it is and the values put into
    it, not its wording.
  Times and durations are real numbers.
\<close>

datatype timer_status = Pending | Cancelled | Fired

datatype message =
    Ready real real
  | UserIdle real
  | SavedUnversioned
  | VersioningTo string
  | NextSaveIn real
  | TimerStopped

datatype event =
    Print message
  | AddUpdateUI
  | RemoveUpdateUI
  | ScriptSave
  | ScriptSaveAs string
  | TimerStart nat real
  | TimerCancel nat

record state =
  backup_interval :: real
  idle_threshold :: real
  timer :: "nat option"
  last_interaction_time :: real
  clock :: "nat \<Rightarrow> real"
  ticks :: nat
  root_name :: string
  timers :: "timer_status list"
  trace :: "event list"

definition time_time :: "state \<Rightarrow> real \<times> state" where
  "time_time s = (clock s (ticks s), s\<lparr>ticks := ticks s + 1\<rparr>)"

definition emit :: "event \<Rightarrow> state \<Rightarrow> state" where
  "emit e s = s\<lparr>trace := trace s @ [e]\<rparr>"

definition py_print :: "message \<Rightarrow> state \<Rightarrow> state" where
  "py_print m s = emit (Print m) s"

text \<open>
  \<^verbatim>\<open>timer.cancel()\<close> stops a timer that is still waiting and does nothing to one that
  has fired or has been cancelled.
\<close>

definition timer_cancel :: "nat \<Rightarrow> state \<Rightarrow> state" where
  "timer_cancel h s =
     emit (TimerCancel h)
       (s\<lparr>timers := (if h < length (timers s) \<and> timers s ! h = Pending
                       then (timers s)[h := Cancelled] else timers s)\<rparr>)"

text \<open>
  \<^verbatim>\<open>self.timer = threading.Timer(interval, ...)\<close> followed by \<^verbatim>\<open>self.timer.start()\<close>:
  a new timer object, waiting.
\<close>

definition timer_start :: "real \<Rightarrow> state \<Rightarrow> state" where
  "timer_start interval s =
     (let h = length (timers s)
      in emit (TimerStart h interval) (s\<lparr>timer := Some h, timers := timers s @ [Pending]\<rparr>))"

subsection \<open>\<^verbatim>\<open>versionUp.py\<close>\<close>

definition auto_saver_init :: "real \<Rightarrow> real \<Rightarrow> (nat \<Rightarrow> real) \<Rightarrow> string \<Rightarrow> state" where
  "auto_saver_init interval threshold clk doc =
     py_print (Ready (interval / 60) (threshold / 60))
       (emit AddUpdateUI
          \<lparr>backup_interval = interval, idle_threshold = threshold, timer = None,
           last_interaction_time = clk 0, clock = clk, ticks = 1, root_name = doc,
           timers = [], trace = []\<rparr>)"

definition track_interaction :: "state \<Rightarrow> state" where
  "track_interaction s = (let (now, s1) = time_time s in s1\<lparr>last_interaction_time := now\<rparr>)"

definition start_or_reset_timer :: "state \<Rightarrow> state" where
  "start_or_reset_timer s =
     (let s1 = track_interaction s;
          s2 = (case timer s1 of Some h \<Rightarrow> timer_cancel h s1 | None \<Rightarrow> s1);
          current_path = root_name s2
      in if current_path \<noteq> [] \<and> current_path \<noteq> ''Root''
         then timer_start (backup_interval s2) (py_print (NextSaveIn (backup_interval s2 / 60)) s2)
         else s2)"

definition execute_version_up :: "state \<Rightarrow> state" where
  "execute_version_up s =
     (let (now, s1) = time_time s;
          idle_duration = now - last_interaction_time s1
      in if idle_duration > idle_threshold s1
         then start_or_reset_timer (py_print (UserIdle (idle_duration / 60)) s1)
         else
           (let current_path = root_name s1
            in if current_path = [] \<or> current_path = ''Root'' then s1
               else
                 (let next_version_path = get_next_version_path current_path;
                      s2 = (if lower current_path = lower next_version_path
                            then py_print SavedUnversioned (emit ScriptSave s1)
                            else emit (ScriptSaveAs next_version_path)
                                   (py_print (VersioningTo (basename next_version_path)) s1))
                  in start_or_reset_timer s2)))"

definition stop_timer :: "state \<Rightarrow> state" where
  "stop_timer s =
     (let s1 = (case timer s of Some h \<Rightarrow> (timer_cancel h s)\<lparr>timer := None\<rparr> | None \<Rightarrow> s)
      in emit RemoveUpdateUI (py_print TimerStopped s1))"

subsection \<open>\<^verbatim>\<open>versionUp12.py\<close>\<close>

definition get_next_version_path12 :: "string \<Rightarrow> string" where
  "get_next_version_path12 script_path =
     (let script_dir = dirname script_path;
          base_name = basename script_path;
          new_name =
            (case re_search base_name of
               Some (name_part, v_part, version_num, ext_part) \<Rightarrow>
                 (let next_version = int_of_digits version_num + 1
                  in name_part @ v_part @ format_03d next_version @ ext_part)
             | None \<Rightarrow>
                 (let (name_part, ext_part) = splitext base_name
                  in name_part @ ''.v001'' @ ext_part))
      in join script_dir new_name)"

definition auto_saver_init12 :: "real \<Rightarrow> real \<Rightarrow> (nat \<Rightarrow> real) \<Rightarrow> string \<Rightarrow> state" where
  "auto_saver_init12 interval threshold clk doc =
     py_print (Ready (interval / 60) (threshold / 60))
       (emit AddUpdateUI
          \<lparr>backup_interval = interval, idle_threshold = threshold, timer = None,
           last_interaction_time = clk 0, clock = clk, ticks = 1, root_name = doc,
           timers = [], trace = []\<rparr>)"

definition track_interaction12 :: "state \<Rightarrow> state" where
  "track_interaction12 s = (let (now, s1) = time_time s in s1\<lparr>last_interaction_time := now\<rparr>)"

definition start_or_reset_timer12 :: "state \<Rightarrow> state" where
  "start_or_reset_timer12 s =
     (let s1 = track_interaction12 s;
          s2 = (case timer s1 of Some h \<Rightarrow> timer_cancel h s1 | None \<Rightarrow> s1);
          current_path = root_name s2
      in if current_path \<noteq> [] \<and> current_path \<noteq> ''Root''
         then timer_start (backup_interval s2) (py_print (NextSaveIn (backup_interval s2 / 60)) s2)
         else s2)"

definition execute_version_up12 :: "state \<Rightarrow> state" where
  "execute_version_up12 s =
     (let (now, s1) = time_time s;
          idle_duration = now - last_interaction_time s1
      in if idle_duration > idle_threshold s1
         then start_or_reset_timer12 (py_print (UserIdle (idle_duration / 60)) s1)
         else
           (let current_path = root_name s1
            in if current_path = [] \<or> current_path = ''Root'' then s1
               else
                 (let next_version_path = get_next_version_path12 current_path
                  in if lower current_path = lower next_version_path
                     then emit ScriptSave s1
                     else start_or_reset_timer12
                            (emit (ScriptSaveAs next_version_path)
                               (py_print (VersioningTo (basename next_version_path)) s1)))))"

definition stop_timer12 :: "state \<Rightarrow> state" where
  "stop_timer12 s =
     (let s1 = (case timer s of Some h \<Rightarrow> (timer_cancel h s)\<lparr>timer := None\<rparr> | None \<Rightarrow> s)
      in py_print TimerStopped (emit RemoveUpdateUI s1))"

subsection \<open>Observations and runs\<close>

text \<open>The save calls in a trace, the trace without the printed lines, and the number of
  timers that are waiting.\<close>

fun is_save :: "event \<Rightarrow> bool" where
  "is_save ScriptSave = True"
| "is_save (ScriptSaveAs path) = True"
| "is_save e = False"

fun is_print :: "event \<Rightarrow> bool" where
  "is_print (Print m) = True"
| "is_print e = False"

definition saves :: "state \<Rightarrow> event list" where
  "saves s = filter is_save (trace s)"

definition without_log :: "state \<Rightarrow> state" where
  "without_log s = s\<lparr>trace := filter (\<lambda>e. \<not> is_print e) (trace s)\<rparr>"

definition pending_timers :: "state \<Rightarrow> nat" where
  "pending_timers s = length (filter (\<lambda>t. t = Pending) (timers s))"

text \<open>
  A timer that is waiting can come due: its status changes, and its payload asks the host
  to run \<open>execute_version_up\<close> on the main thread.
\<close>

definition timer_due :: "nat \<Rightarrow> state \<Rightarrow> state" where
  "timer_due h s =
     s\<lparr>timers := (if h < length (timers s) \<and> timers s ! h = Pending
                    then (timers s)[h := Fired] else timers s)\<rparr>"

text \<open>
  The states that a session can reach. The object is created once; after that the host
  calls the registered methods in any order (\<open>track_interaction\<close> on a tick of the user
  interface, \<open>start_or_reset_timer\<close> on load and on save, \<open>stop_timer\<close> on close), timers
  come due, the timer payload runs, and the name of the open document changes.
\<close>

inductive reachable :: "state \<Rightarrow> bool" where
  created: "reachable (auto_saver_init interval threshold clk doc)"
| ui_tick: "reachable s \<Longrightarrow> reachable (track_interaction s)"
| load_or_save: "reachable s \<Longrightarrow> reachable (start_or_reset_timer s)"
| close: "reachable s \<Longrightarrow> reachable (stop_timer s)"
| version_up: "reachable s \<Longrightarrow> reachable (execute_version_up s)"
| due: "reachable s \<Longrightarrow> reachable (timer_due h s)"
| document: "reachable s \<Longrightarrow> reachable (s\<lparr>root_name := path\<rparr>)"

inductive reachable12 :: "state \<Rightarrow> bool" where
  created12: "reachable12 (auto_saver_init12 interval threshold clk doc)"
| ui_tick12: "reachable12 s \<Longrightarrow> reachable12 (track_interaction12 s)"
| load_or_save12: "reachable12 s \<Longrightarrow> reachable12 (start_or_reset_timer12 s)"
| close12: "reachable12 s \<Longrightarrow> reachable12 (stop_timer12 s)"
| version_up12: "reachable12 s \<Longrightarrow> reachable12 (execute_version_up12 s)"
| due12: "reachable12 s \<Longrightarrow> reachable12 (timer_due h s)"
| document12: "reachable12 s \<Longrightarrow> reachable12 (s\<lparr>root_name := path\<rparr>)"

text \<open>
  The attribute \<open>timer\<close> refers to every timer that is waiting: no other timer waits.
\<close>

definition timer_inv :: "state \<Rightarrow> bool" where
  "timer_inv s \<longleftrightarrow>
     (case timer s of
        None \<Rightarrow> Pending \<notin> set (timers s)
      | Some h \<Rightarrow> Pending \<notin> set (take h (timers s)) \<and> Pending \<notin> set (drop (Suc h) (timers s)))"

text \<open>A clock and some states for the examples: one second passes between two readings.\<close>

definition example_clock :: "nat \<Rightarrow> real" where
  "example_clock k = 1000 + real k"

definition example_armed :: state where
  "example_armed = start_or_reset_timer (auto_saver_init 4800 300 example_clock ''/jobs/comp.v001.nk'')"

definition example_closed :: state where
  "example_closed = (timer_due 0 example_armed)\<lparr>root_name := ''Root''\<rparr>"

definition example_idle :: state where
  "example_idle = (timer_due 0 example_armed)\<lparr>ticks := 400\<rparr>"

section \<open>Decimal digits\<close>

lemma is_digit_char_of: "(k::nat) < 10 \<Longrightarrow> is_digit (char_of (48 + k))"
  by (simp add: is_digit_def)

lemma digit_value_char_of: "(k::nat) < 10 \<Longrightarrow> (of_char (char_of (48 + k)) :: nat) - 48 = k"
  by simp

lemma int_of_digits_snoc:
  "int_of_digits (ds @ [c]) = 10 * int_of_digits ds + (of_char c - 48)"
  by (simp add: int_of_digits_def)

lemma int_of_digits_digits_of: "int_of_digits (digits_of n) = n"
proof (induction n rule: digits_of.induct)
  case (1 n)
  show ?case
  proof (cases "n < 10")
    case True
    then show ?thesis
      by (subst digits_of.simps) (simp add: int_of_digits_def)
  next
    case False
    have m: "n mod 10 < 10" by simp
    from False 1 have "int_of_digits (digits_of (n div 10)) = n div 10" by simp
    with False m show ?thesis
      by (subst digits_of.simps) (simp add: int_of_digits_snoc)
  qed
qed

lemma digits_of_all_digits: "c \<in> set (digits_of n) \<Longrightarrow> is_digit c"
proof (induction n rule: digits_of.induct)
  case (1 n)
  show ?case
  proof (cases "n < 10")
    case True
    with 1(2) show ?thesis
      by (subst (asm) digits_of.simps) (simp add: is_digit_def)
  next
    case False
    have m: "n mod 10 < 10" by simp
    from 1(2) False have "c \<in> set (digits_of (n div 10)) \<or> c = char_of (48 + n mod 10)"
      by (subst (asm) digits_of.simps) auto
    with 1(1) False is_digit_char_of [OF m] show ?thesis by auto
  qed
qed

lemma digits_of_nonempty: "digits_of n \<noteq> []"
  by (subst digits_of.simps) simp

lemma int_of_digits_zeros: "int_of_digits (replicate k (CHR ''0'') @ s) = int_of_digits s"
proof -
  have "foldl (\<lambda>a c. 10 * a + (of_char c - 48)) (0::nat) (replicate k (CHR ''0'')) = 0"
    by (induction k) simp_all
  then show ?thesis by (simp add: int_of_digits_def)
qed

lemma int_of_digits_format: "int_of_digits (format_03d n) = n"
  by (simp add: format_03d_def Let_def int_of_digits_zeros int_of_digits_digits_of)

lemma format_03d_digits: "c \<in> set (format_03d n) \<Longrightarrow> is_digit c"
  by (auto simp: format_03d_def Let_def is_digit_def dest: digits_of_all_digits [unfolded is_digit_def])

lemma format_03d_length: "3 \<le> length (format_03d n)"
  by (simp add: format_03d_def Let_def)

lemma format_03d_nonempty: "format_03d n \<noteq> []"
  using format_03d_length [of n] by auto

section \<open>What the search finds\<close>

lemma is_nk_ext_cases:
  "is_nk_ext e \<Longrightarrow> \<exists>b c. e = [CHR ''.'', b, c] \<and> (b = CHR ''n'' \<or> b = CHR ''N'') \<and> (c = CHR ''k'' \<or> c = CHR ''K'')"
  by (auto simp: is_nk_ext_def split: list.splits)

lemma is_nk_ext_length: "is_nk_ext e \<Longrightarrow> length e = 3"
  by (auto dest: is_nk_ext_cases)

lemma not_digit_dot: "\<not> is_digit (CHR ''.'')"
  by (simp add: is_digit_def)

lemma not_digit_v: "\<not> is_digit (CHR ''v'')" "\<not> is_digit (CHR ''V'')"
  by (simp_all add: is_digit_def)

lemma match_tail_complete:
  assumes "is_v_part V" "all_digits N" "is_nk_ext E"
  shows "match_tail (V @ N @ E) = Some (V, N, E)"
proof -
  from assms(3) obtain b c where E: "E = [CHR ''.'', b, c]"
    by (auto dest: is_nk_ext_cases)
  from assms(2) have tw: "takeWhile is_digit (N @ E) = N"
    by (simp add: all_digits_def E not_digit_dot)
  from assms(2) have dw: "dropWhile is_digit (N @ E) = E"
    by (simp add: all_digits_def E not_digit_dot)
  from assms(2) have ne: "N \<noteq> []" by (simp add: all_digits_def)
  from assms(1) consider "V = ''.v''" | "V = ''.V''" by (auto simp: is_v_part_def)
  then show ?thesis
  proof cases
    case 1
    with tw dw ne assms(3) show ?thesis by (simp add: match_tail_def E)
  next
    case 2
    with tw dw ne assms(3) show ?thesis by (simp add: match_tail_def E)
  qed
qed

lemma match_tail_sound:
  assumes "match_tail s = Some (v, n, e)"
  shows "is_v_part v \<and> all_digits n \<and> is_nk_ext e \<and> (s = v @ n @ e \<or> s = v @ n @ e @ [newline])"
proof -
  from assms obtain d w rest where s: "s = d # w # rest"
    by (cases s rule: list.exhaust; cases "tl s") (auto simp: match_tail_def split: list.splits)
  let ?r = "dropWhile is_digit rest"
  from assms s have dv: "d = CHR ''.''" "w = CHR ''v'' \<or> w = CHR ''V''"
    and n: "n = takeWhile is_digit rest" and nne: "n \<noteq> []"
    and e: "e = take 3 ?r" and ext: "is_nk_ext (take 3 ?r)"
    and fin: "drop 3 ?r = [] \<or> drop 3 ?r = [newline]" and v: "v = [d, w]"
    by (auto simp: match_tail_def Let_def split: if_splits)
  have digs: "\<forall>c \<in> set n. is_digit c"
    unfolding n by (auto dest: set_takeWhileD)
  have "rest = n @ ?r" unfolding n by simp
  also have "?r = e @ drop 3 ?r" unfolding e by simp
  finally have rest: "rest = n @ e @ drop 3 ?r" .
  from fin rest s v have "s = v @ n @ e \<or> s = v @ n @ e @ [newline]"
    by auto
  with dv v nne digs ext e show ?thesis
    by (auto simp: is_v_part_def all_digits_def)
qed

lemma trailing_digits:
  assumes "all_digits N" "W \<noteq> []" "\<not> is_digit (last W)"
  shows "takeWhile is_digit (rev (W @ N)) = rev N"
proof -
  from assms(2,3) have "takeWhile is_digit (rev W) = []"
    by (cases W rule: rev_cases) auto
  moreover have "takeWhile is_digit (rev N @ rev W) = rev N @ takeWhile is_digit (rev W)"
    using assms(1) by (intro takeWhile_append2) (auto simp: all_digits_def)
  ultimately show ?thesis by simp
qed

lemma is_v_part_last: "is_v_part V \<Longrightarrow> V \<noteq> [] \<and> \<not> is_digit (last V) \<and> length V = 2"
  by (auto simp: is_v_part_def is_digit_def)

lemma nk_ext_last_not_newline: "is_nk_ext E \<Longrightarrow> last E \<noteq> newline"
  by (auto dest!: is_nk_ext_cases simp: newline_def)

lemma match_tail_prefix_None:
  assumes "Y \<noteq> []" "is_v_part V" "all_digits N" "is_nk_ext E"
  shows "match_tail (Y @ V @ N @ E) = None"
proof (rule ccontr)
  assume "match_tail (Y @ V @ N @ E) \<noteq> None"
  then obtain v n e where m: "match_tail (Y @ V @ N @ E) = Some (v, n, e)" by auto
  from match_tail_sound [OF m] have v: "is_v_part v" and n: "all_digits n" and e: "is_nk_ext e"
    and shape: "Y @ V @ N @ E = v @ n @ e \<or> Y @ V @ N @ E = v @ n @ e @ [newline]" by auto
  from assms(4) have Ene: "E \<noteq> []" by (auto dest: is_nk_ext_length)
  from shape show False
  proof
    assume eq: "Y @ V @ N @ E = v @ n @ e"
    have "(Y @ V @ N) @ E = (v @ n) @ e" using eq by simp
    moreover have "length E = length e" using assms(4) e by (simp add: is_nk_ext_length)
    ultimately have eq2: "Y @ V @ N = v @ n" by (metis append_eq_append_conv)
    have "takeWhile is_digit (rev ((Y @ V) @ N)) = rev N"
      using assms(2,3) by (intro trailing_digits) (auto dest: is_v_part_last)
    moreover have "takeWhile is_digit (rev (v @ n)) = rev n"
      using v n by (intro trailing_digits) (auto dest: is_v_part_last)
    ultimately have "N = n" using eq2 by simp
    with eq2 have "Y @ V = v" by simp
    then have "length Y + length V = length v" by (metis length_append)
    with assms(1,2) v show False by (auto dest!: is_v_part_last)
  next
    assume eq: "Y @ V @ N @ E = v @ n @ e @ [newline]"
    then have "last (Y @ V @ N @ E) = last (v @ n @ e @ [newline])" by simp
    with Ene have "last E = newline" by simp
    with assms(4) show False by (auto dest: nk_ext_last_not_newline)
  qed
qed

lemma match_from_complete:
  assumes "X \<noteq> []" "newline \<notin> set X" "is_v_part V" "all_digits N" "is_nk_ext E"
  shows "match_from acc (X @ V @ N @ E) = Some (acc @ X, V, N, E)"
  using assms(1,2)
proof (induction X arbitrary: acc)
  case Nil
  then show ?case by simp
next
  case (Cons x xs)
  show ?case
  proof (cases "xs = []")
    case True
    with Cons.prems match_tail_complete [OF assms(3-5)] show ?thesis by simp
  next
    case False
    from False have "match_tail (xs @ V @ N @ E) = None"
      by (rule match_tail_prefix_None) (rule assms)+
    moreover from Cons.IH [OF False, of "acc @ [x]"] Cons.prems
    have "match_from (acc @ [x]) (xs @ V @ N @ E) = Some (acc @ x # xs, V, N, E)" by simp
    ultimately show ?thesis using Cons.prems by auto
  qed
qed

lemma re_search_complete:
  assumes "X \<noteq> []" "newline \<notin> set X" "is_v_part V" "all_digits N" "is_nk_ext E"
  shows "re_search (X @ V @ N @ E) = Some (X, V, N, E)"
proof -
  from assms(1) obtain x xs where X: "X = x # xs" by (cases X) auto
  have "match_from [] (X @ V @ N @ E) = Some (X, V, N, E)"
    using match_from_complete [OF assms, of "[]"] by simp
  then show ?thesis by (simp add: X)
qed

lemma match_from_sound:
  assumes "match_from acc s = Some (name, v, n, e)"
  shows "\<exists>x nl. x \<noteq> [] \<and> name = acc @ x \<and> newline \<notin> set x \<and> s = x @ v @ n @ e @ nl \<and>
           (nl = [] \<or> nl = [newline]) \<and> is_v_part v \<and> all_digits n \<and> is_nk_ext e"
  using assms
proof (induction s arbitrary: acc)
  case Nil
  then show ?case by simp
next
  case (Cons c cs)
  from Cons.prems have c: "c \<noteq> newline" by (auto split: if_splits)
  show ?case
  proof (cases "match_tail cs")
    case None
    with Cons.prems c have "match_from (acc @ [c]) cs = Some (name, v, n, e)" by simp
    from Cons.IH [OF this] obtain x nl where
      "x \<noteq> []" "name = (acc @ [c]) @ x" "newline \<notin> set x" "cs = x @ v @ n @ e @ nl"
      "nl = [] \<or> nl = [newline]" "is_v_part v" "all_digits n" "is_nk_ext e" by blast
    with c show ?thesis
      by (intro exI [of _ "c # x"] exI [of _ nl]) auto
  next
    case (Some t)
    with Cons.prems c have t: "t = (v, n, e)" and name: "name = acc @ [c]"
      by (auto split: prod.splits)
    from match_tail_sound [OF Some [unfolded t]]
    have "is_v_part v" "all_digits n" "is_nk_ext e" "cs = v @ n @ e \<or> cs = v @ n @ e @ [newline]"
      by auto
    with c name show ?thesis
      by (intro exI [of _ "[c]"] exI [of _ "if cs = v @ n @ e then [] else [newline]"]) auto
  qed
qed

lemma re_search_sound:
  assumes "re_search s = Some (name, v, n, e)"
  shows "\<exists>pre nl. s = pre @ name @ v @ n @ e @ nl \<and> (nl = [] \<or> nl = [newline]) \<and>
           name \<noteq> [] \<and> newline \<notin> set name \<and> is_v_part v \<and> all_digits n \<and> is_nk_ext e"
  using assms
proof (induction s)
  case Nil
  then show ?case by simp
next
  case (Cons c cs)
  show ?case
  proof (cases "match_from [] (c # cs)")
    case None
    with Cons.prems have "re_search cs = Some (name, v, n, e)" by simp
    from Cons.IH [OF this] obtain pre nl where
      "cs = pre @ name @ v @ n @ e @ nl" "nl = [] \<or> nl = [newline]"
      "name \<noteq> []" "newline \<notin> set name" "is_v_part v" "all_digits n" "is_nk_ext e" by blast
    then show ?thesis
      by (intro exI [of _ "c # pre"] exI [of _ nl]) auto
  next
    case (Some m)
    with Cons.prems have "match_from [] (c # cs) = Some (name, v, n, e)" by simp
    from match_from_sound [OF this] obtain x nl where
      "x \<noteq> []" "name = [] @ x" "newline \<notin> set x" "c # cs = x @ v @ n @ e @ nl"
      "nl = [] \<or> nl = [newline]" "is_v_part v" "all_digits n" "is_nk_ext e" by blast
    then show ?thesis
      by (intro exI [of _ "[]"] exI [of _ nl]) auto
  qed
qed

section \<open>Directory and base name\<close>

lemma dropWhile_neq_absent:
  "c \<notin> set xs \<Longrightarrow> dropWhile (\<lambda>x. x \<noteq> c) (xs @ ys) = dropWhile (\<lambda>x. x \<noteq> c) ys"
  by (induction xs) auto

lemma takeWhile_neq_absent:
  "c \<notin> set xs \<Longrightarrow> takeWhile (\<lambda>x. x \<noteq> c) (xs @ ys) = xs @ takeWhile (\<lambda>x. x \<noteq> c) ys"
  by (induction xs) auto

lemma rev_split_at:
  "rev (dropWhile P (rev p)) @ rev (takeWhile P (rev p)) = p"
proof -
  have "rev (dropWhile P (rev p)) @ rev (takeWhile P (rev p))
      = rev (takeWhile P (rev p) @ dropWhile P (rev p))"
    by (simp only: rev_append)
  also have "\<dots> = rev (rev p)" by (simp only: takeWhile_dropWhile_id)
  finally show ?thesis by simp
qed

lemma take_rfind:
  "take (nat (rfind p c + 1)) p = rev (dropWhile (\<lambda>x. x \<noteq> c) (rev p))"
proof -
  let ?d = "dropWhile (\<lambda>x. x \<noteq> c) (rev p)" and ?t = "takeWhile (\<lambda>x. x \<noteq> c) (rev p)"
  have "take (length (rev ?d)) (rev ?d @ rev ?t) = rev ?d" by simp
  then have "take (length ?d) p = rev ?d" unfolding rev_split_at by simp
  then show ?thesis by (simp add: rfind_def)
qed

lemma drop_rfind:
  "drop (nat (rfind p c + 1)) p = rev (takeWhile (\<lambda>x. x \<noteq> c) (rev p))"
proof -
  let ?d = "dropWhile (\<lambda>x. x \<noteq> c) (rev p)" and ?t = "takeWhile (\<lambda>x. x \<noteq> c) (rev p)"
  have "drop (length (rev ?d)) (rev ?d @ rev ?t) = rev ?t" by simp
  then have "drop (length ?d) p = rev ?t" unfolding rev_split_at by simp
  then show ?thesis by (simp add: rfind_def)
qed

lemma rfind_absent: "c \<notin> set p \<Longrightarrow> rfind p c = -1"
proof -
  assume "c \<notin> set p"
  then have "dropWhile (\<lambda>x. x \<noteq> c) (rev p @ []) = dropWhile (\<lambda>x. x \<noteq> c) []"
    by (intro dropWhile_neq_absent) simp
  then show ?thesis by (simp add: rfind_def)
qed

lemma basename_alt: "basename p = rev (takeWhile (\<lambda>x. x \<noteq> CHR ''/'') (rev p))"
  by (simp add: basename_def Let_def drop_rfind)

lemma basename_no_sep: "CHR ''/'' \<notin> set (basename p)"
  by (auto simp: basename_alt dest: set_takeWhileD)

lemma all_sep_replicate:
  "h = replicate (length h) c \<longleftrightarrow> (\<forall>x \<in> set h. x = c)"
  by (induction h) auto

lemma dirname_alt:
  "dirname p =
     (let head = rev (dropWhile (\<lambda>x. x \<noteq> CHR ''/'') (rev p))
      in if \<exists>x \<in> set head. x \<noteq> CHR ''/'' then rev (dropWhile (\<lambda>x. x = CHR ''/'') (rev head)) else head)"
proof -
  let ?h = "rev (dropWhile (\<lambda>x. x \<noteq> CHR ''/'') (rev p))"
  have "(\<exists>x \<in> set ?h. x \<noteq> CHR ''/'') \<longleftrightarrow> ?h \<noteq> replicate (length ?h) (CHR ''/'')"
    using all_sep_replicate [of ?h "CHR ''/''"] by blast
  moreover have "(\<exists>x \<in> set ?h. x \<noteq> CHR ''/'') \<longrightarrow> ?h \<noteq> []"
    by (metis empty_iff empty_set)
  ultimately have c: "(?h \<noteq> [] \<and> ?h \<noteq> replicate (length ?h) (CHR ''/'')) \<longleftrightarrow> (\<exists>x \<in> set ?h. x \<noteq> CHR ''/'')"
    by blast
  have "dirname p = (if ?h \<noteq> [] \<and> ?h \<noteq> replicate (length ?h) (CHR ''/'')
      then rev (dropWhile (\<lambda>x. x = CHR ''/'') (rev ?h)) else ?h)"
    unfolding dirname_def Let_def take_rfind rstrip_def ..
  also have "\<dots> = (if \<exists>x \<in> set ?h. x \<noteq> CHR ''/''
      then rev (dropWhile (\<lambda>x. x = CHR ''/'') (rev ?h)) else ?h)"
    unfolding c ..
  finally show ?thesis unfolding Let_def .
qed

lemma rstrip_shape:
  assumes "\<exists>x \<in> set h. x \<noteq> c"
  shows "rstrip c h \<noteq> [] \<and> last (rstrip c h) \<noteq> c"
proof -
  let ?d = "dropWhile (\<lambda>x. x = c) (rev h)"
  from assms have "\<not> (\<forall>x \<in> set (rev h). x = c)" by simp
  then have ne: "?d \<noteq> []" by (simp only: dropWhile_eq_Nil_conv not_False_eq_True)
  from hd_dropWhile [OF ne] have "hd ?d \<noteq> c" .
  moreover from ne have "last (rev ?d) = hd ?d" by (simp add: last_rev)
  ultimately show ?thesis using ne by (simp add: rstrip_def)
qed

lemma dirname_cases:
  obtains h where "dirname p = h" "\<forall>x \<in> set h. x = CHR ''/''"
  | h where "dirname p = rstrip (CHR ''/'') h" "\<exists>x \<in> set h. x \<noteq> CHR ''/''"
proof -
  define h where "h = rev (dropWhile (\<lambda>x. x \<noteq> CHR ''/'') (rev p))"
  have d: "dirname p = (if \<exists>x \<in> set h. x \<noteq> CHR ''/'' then rstrip (CHR ''/'') h else h)"
    unfolding h_def rstrip_def using dirname_alt [of p, unfolded Let_def] .
  show thesis
  proof (cases "\<exists>x \<in> set h. x \<noteq> CHR ''/''")
    case True
    with d have "dirname p = rstrip (CHR ''/'') h" by simp
    with True that(2) show thesis by blast
  next
    case False
    with d have "dirname p = h" by simp
    with False that(1) show thesis by blast
  qed
qed

lemma dirname_shape:
  "dirname p = [] \<or> (dirname p \<noteq> [] \<and> (\<forall>x \<in> set (dirname p). x = CHR ''/'')) \<or>
     (dirname p \<noteq> [] \<and> last (dirname p) \<noteq> CHR ''/'')"
proof (cases p rule: dirname_cases)
  case (1 h)
  then show ?thesis by (cases "h = []") simp_all
next
  case (2 h)
  with rstrip_shape [OF 2(2)] show ?thesis by simp
qed

lemma dirname_of_head:
  assumes "rev (dropWhile (\<lambda>x. x \<noteq> CHR ''/'') (rev p)) = h"
  shows "dirname p = (if \<exists>x \<in> set h. x \<noteq> CHR ''/'' then rstrip (CHR ''/'') h else h)"
  unfolding assms [symmetric] rstrip_def using dirname_alt [of p, unfolded Let_def] .

lemma head_no_sep:
  assumes "CHR ''/'' \<notin> set n"
  shows "dirname n = []"
proof -
  from assms have "CHR ''/'' \<notin> set (rev n)" by simp
  from dropWhile_neq_absent [OF this, of "[]"]
  have "rev (dropWhile (\<lambda>x. x \<noteq> CHR ''/'') (rev n)) = []" by simp
  from dirname_of_head [OF this] show ?thesis by simp
qed

lemma dirname_append_all_sep:
  assumes "d \<noteq> []" "\<forall>x \<in> set d. x = CHR ''/''" "CHR ''/'' \<notin> set n"
  shows "dirname (d @ n) = d"
proof -
  from assms(1) obtain y ys where r: "rev d = y # ys" by (cases "rev d") auto
  then have "y \<in> set d" by (metis list.set_intros(1) set_rev)
  with assms(2) have y: "y = CHR ''/''" by blast
  have "dropWhile (\<lambda>x. x \<noteq> CHR ''/'') (rev d) = rev d" unfolding r y by simp
  moreover from assms(3) have "CHR ''/'' \<notin> set (rev n)" by simp
  from dropWhile_neq_absent [OF this, of "rev d"]
  have "dropWhile (\<lambda>x. x \<noteq> CHR ''/'') (rev (d @ n)) = dropWhile (\<lambda>x. x \<noteq> CHR ''/'') (rev d)"
    by simp
  ultimately have "rev (dropWhile (\<lambda>x. x \<noteq> CHR ''/'') (rev (d @ n))) = d" by simp
  from dirname_of_head [OF this] assms(2) show ?thesis by simp
qed

lemma rstrip_snoc:
  assumes "d \<noteq> []" "last d \<noteq> c"
  shows "rstrip c (d @ [c]) = d"
proof -
  from assms(1) obtain y ys where r: "rev d = y # ys" by (cases "rev d") auto
  with assms have "y \<noteq> c" by (metis last_rev list.sel(1) rev_rev_ident rev_is_Nil_conv)
  then have "dropWhile (\<lambda>x. x = c) (c # y # ys) = y # ys" by simp
  then have "rev (dropWhile (\<lambda>x. x = c) (rev (d @ [c]))) = rev (rev d)" by (simp add: r)
  then show ?thesis by (simp add: rstrip_def)
qed

lemma dirname_append_sep:
  assumes "d \<noteq> []" "last d \<noteq> CHR ''/''" "CHR ''/'' \<notin> set n"
  shows "dirname (d @ ''/'' @ n) = d"
proof -
  from assms(3) have "CHR ''/'' \<notin> set (rev n)" by simp
  from dropWhile_neq_absent [OF this, of "CHR ''/'' # rev d"]
  have "dropWhile (\<lambda>x. x \<noteq> CHR ''/'') (rev (d @ ''/'' @ n)) = CHR ''/'' # rev d" by simp
  then have h: "rev (dropWhile (\<lambda>x. x \<noteq> CHR ''/'') (rev (d @ ''/'' @ n))) = d @ ''/''" by simp
  from assms(1,2) have "last d \<in> set (d @ ''/'')" by simp
  with assms(2) have ex: "\<exists>x \<in> set (d @ ''/''). x \<noteq> CHR ''/''" by blast
  from dirname_of_head [OF h] ex have "dirname (d @ ''/'' @ n) = rstrip (CHR ''/'') (d @ ''/'')"
    by (simp only: if_True)
  with rstrip_snoc [OF assms(1,2)] show ?thesis by simp
qed

lemma dirname_join:
  assumes "CHR ''/'' \<notin> set n"
  shows "dirname (join (dirname p) n) = dirname p"
proof -
  from assms have nohd: "\<not> (n \<noteq> [] \<and> hd n = CHR ''/'')" by (cases n) auto
  from dirname_shape [of p] consider
      "dirname p = []"
    | "dirname p \<noteq> []" "\<forall>x \<in> set (dirname p). x = CHR ''/''"
    | "dirname p \<noteq> []" "last (dirname p) \<noteq> CHR ''/''" by blast
  then show ?thesis
  proof cases
    case 1
    with nohd head_no_sep [OF assms] show ?thesis by (simp add: join_def)
  next
    case 2
    then have "last (dirname p) = CHR ''/''" using last_in_set by blast
    with 2 nohd have "join (dirname p) n = dirname p @ n" by (simp add: join_def)
    with dirname_append_all_sep [OF 2 assms] show ?thesis by simp
  next
    case 3
    with nohd have "join (dirname p) n = dirname p @ ''/'' @ n" by (simp add: join_def)
    with dirname_append_sep [OF 3 assms] show ?thesis by simp
  qed
qed

lemma basename_append:
  assumes "d = [] \<or> last d = CHR ''/''" "CHR ''/'' \<notin> set n"
  shows "basename (d @ n) = n"
proof -
  from assms(1) have "takeWhile (\<lambda>x. x \<noteq> CHR ''/'') (rev d) = []"
    by (cases d rule: rev_cases) auto
  with assms(2) show ?thesis
    by (simp add: basename_alt takeWhile_neq_absent)
qed

lemma basename_join:
  assumes "CHR ''/'' \<notin> set n"
  shows "basename (join d n) = n"
proof -
  from assms have nohd: "\<not> (n \<noteq> [] \<and> hd n = CHR ''/'')" by (cases n) auto
  show ?thesis
  proof (cases "d = [] \<or> last d = CHR ''/''")
    case True
    with nohd have "join d n = d @ n" by (auto simp: join_def)
    with basename_append [OF True assms] show ?thesis by simp
  next
    case False
    with nohd have "join d n = (d @ ''/'') @ n" by (auto simp: join_def)
    moreover have "basename ((d @ ''/'') @ n) = n"
      by (rule basename_append) (use assms in auto)
    ultimately show ?thesis by simp
  qed
qed

section \<open>Extensions and version tokens\<close>

lemma splitext_append: "fst (splitext p) @ snd (splitext p) = p"
  by (simp add: splitext_def Let_def)

lemma splitext_ext_shape:
  "snd (splitext p) = [] \<or>
     (hd (snd (splitext p)) = CHR ''.'' \<and> CHR ''.'' \<notin> set (tl (snd (splitext p))))"
proof (cases "snd (splitext p) = []")
  case True
  then show ?thesis by simp
next
  case False
  let ?d = "dropWhile (\<lambda>x. x \<noteq> CHR ''.'') (rev p)" and ?t = "takeWhile (\<lambda>x. x \<noteq> CHR ''.'') (rev p)"
  from False have ext: "snd (splitext p) = drop (nat (rfind p (CHR ''.''))) p"
    and pos: "rfind p (CHR ''/'') < rfind p (CHR ''.'')"
    by (auto simp: splitext_def Let_def split: if_splits)
  from pos have "0 < length ?d" unfolding rfind_def by linarith
  then have ne: "?d \<noteq> []" by (rule length_greater_0_conv [THEN iffD1])
  then obtain y ys where d: "?d = y # ys" by (cases ?d) auto
  from hd_dropWhile [OF ne] d have y: "y = CHR ''.''" by simp
  have p: "rev ys @ [y] @ rev ?t = p"
    using rev_split_at [of "\<lambda>x. x \<noteq> CHR ''.''" p] by (simp add: d)
  have n: "nat (rfind p (CHR ''.'')) = length (rev ys)" by (simp add: rfind_def d)
  have "drop (length (rev ys)) (rev ys @ [y] @ rev ?t) = [y] @ rev ?t" by simp
  then have "drop (length (rev ys)) p = y # rev ?t" unfolding p by simp
  with ext n have e: "snd (splitext p) = CHR ''.'' # rev ?t" by (simp add: y)
  have "CHR ''.'' \<notin> set (rev ?t)" by (auto dest: set_takeWhileD)
  with e show ?thesis by simp
qed

lemma splitext_nk:
  assumes "CHR ''/'' \<notin> set R" "\<exists>c \<in> set R. c \<noteq> CHR ''.''" "is_nk_ext E"
  shows "splitext (R @ E) = (R, E)"
proof -
  from assms(3) obtain b c where E: "E = [CHR ''.'', b, c]" and bc: "b \<noteq> CHR ''.''" "c \<noteq> CHR ''.''"
    "b \<noteq> CHR ''/''" "c \<noteq> CHR ''/''"
    by (auto dest!: is_nk_ext_cases)
  from assms(1) bc have "CHR ''/'' \<notin> set (R @ E)" by (simp add: E)
  then have sep: "rfind (R @ E) (CHR ''/'') = -1" by (rule rfind_absent)
  from bc have dot: "rfind (R @ E) (CHR ''.'') = int (length R)"
    by (simp add: rfind_def E)
  from assms(2) show ?thesis
    by (simp add: splitext_def Let_def sep dot)
qed

section \<open>Names with a version suffix are the names that match\<close>

lemma match_tail_complete_nl:
  assumes "is_v_part V" "all_digits N" "is_nk_ext E"
  shows "match_tail (V @ N @ E @ [newline]) = Some (V, N, E)"
proof -
  from assms(3) obtain b c where E: "E = [CHR ''.'', b, c]"
    by (auto dest: is_nk_ext_cases)
  from assms(2) have tw: "takeWhile is_digit (N @ E @ [newline]) = N"
    by (simp add: all_digits_def E not_digit_dot)
  from assms(2) have dw: "dropWhile is_digit (N @ E @ [newline]) = E @ [newline]"
    by (simp add: all_digits_def E not_digit_dot)
  from assms(2) have ne: "N \<noteq> []" by (simp add: all_digits_def)
  from assms(1) consider "V = ''.v''" | "V = ''.V''" by (auto simp: is_v_part_def)
  then show ?thesis
  proof cases
    case 1
    with tw dw ne assms(3) show ?thesis by (simp add: match_tail_def E)
  next
    case 2
    with tw dw ne assms(3) show ?thesis by (simp add: match_tail_def E)
  qed
qed

lemma re_search_append: "re_search s \<noteq> None \<Longrightarrow> re_search (pre @ s) \<noteq> None"
  by (induction pre) (auto split: option.splits)

lemma re_search_exists:
  assumes "c \<noteq> newline" "is_v_part V" "all_digits N" "is_nk_ext E" "nl = [] \<or> nl = [newline]"
  shows "re_search (pre @ [c] @ V @ N @ E @ nl) \<noteq> None"
proof -
  from assms(5) match_tail_complete [OF assms(2-4)] match_tail_complete_nl [OF assms(2-4)]
  have "match_tail (V @ N @ E @ nl) = Some (V, N, E)" by auto
  with assms(1) have "re_search (c # V @ N @ E @ nl) \<noteq> None" by simp
  from re_search_append [OF this, of pre] show ?thesis by simp
qed

lemma version_suffix_compose:
  assumes "c \<noteq> newline" "is_v_part V" "all_digits N" "is_nk_ext E" "nl = [] \<or> nl = [newline]"
  shows "has_version_suffix (pre @ [c] @ V @ N @ E @ nl)"
proof -
  let ?b = "pre @ [c] @ V @ N @ E @ nl"
  let ?body = "pre @ [c] @ V @ N @ E"
  from assms(4) have E3: "length E = 3" and Ene: "E \<noteq> []" and El: "last E \<noteq> newline"
    by (auto dest: is_nk_ext_length nk_ext_last_not_newline)
  have body: "(if ?b \<noteq> [] \<and> last ?b = newline then butlast ?b else ?b) = ?body"
  proof (cases "nl = []")
    case True
    with Ene El show ?thesis by simp
  next
    case False
    with assms(5) have "nl = [newline]" by simp
    then show ?thesis by (simp add: butlast_append)
  qed
  obtain v where V: "V = [CHR ''.'', v]" and v: "v = CHR ''v'' \<or> v = CHR ''V''"
    using assms(2) by (auto simp: is_v_part_def)
  have r: "rev ?body = rev E @ rev N @ v # CHR ''.'' # c # rev pre" by (simp add: V)
  have t3: "take 3 (rev ?body) = rev E" unfolding r using E3 by simp
  have d3: "drop 3 (rev ?body) = rev N @ v # CHR ''.'' # c # rev pre" unfolding r using E3 by simp
  from v have nv: "\<not> is_digit v" by (auto simp: not_digit_v)
  from assms(3) have dN: "\<forall>x \<in> set (rev N). is_digit x" "rev N \<noteq> []"
    by (simp_all add: all_digits_def)
  have "takeWhile is_digit (rev N @ v # CHR ''.'' # c # rev pre)
      = rev N @ takeWhile is_digit (v # CHR ''.'' # c # rev pre)"
    by (intro takeWhile_append2) (use dN in auto)
  with nv have tw: "takeWhile is_digit (rev N @ v # CHR ''.'' # c # rev pre) = rev N"
    by simp
  have "dropWhile is_digit (rev N @ v # CHR ''.'' # c # rev pre)
      = dropWhile is_digit (v # CHR ''.'' # c # rev pre)"
    by (intro dropWhile_append2) (use dN in auto)
  with nv have dw: "dropWhile is_digit (rev N @ v # CHR ''.'' # c # rev pre) = v # CHR ''.'' # c # rev pre"
    by simp
  show ?thesis
    unfolding has_version_suffix_def body Let_def t3 d3 tw dw
    using assms(1,4) v dN by simp
qed

lemma version_suffix_decompose:
  assumes "has_version_suffix b"
  shows "\<exists>pre c V N E nl. b = pre @ [c] @ V @ N @ E @ nl \<and> c \<noteq> newline \<and> is_v_part V \<and>
           all_digits N \<and> is_nk_ext E \<and> (nl = [] \<or> nl = [newline])"
proof -
  define body where "body = (if b \<noteq> [] \<and> last b = newline then butlast b else b)"
  define nl where "nl = (if b \<noteq> [] \<and> last b = newline then [newline] else [])"
  define r where "r = rev body"
  define digits where "digits = takeWhile is_digit (drop 3 r)"
  define rest where "rest = dropWhile is_digit (drop 3 r)"
  have b: "b = body @ nl"
  proof (cases "b \<noteq> [] \<and> last b = newline")
    case True
    then have "butlast b @ [newline] = b" using append_butlast_last_id [of b] by simp
    moreover from True have "body = butlast b" "nl = [newline]" by (auto simp: body_def nl_def)
    ultimately show ?thesis by simp
  next
    case False
    then have "body = b" "nl = []" by (auto simp: body_def nl_def)
    then show ?thesis by simp
  qed
  from assms have e: "is_nk_ext (rev (take 3 r))" and dne: "digits \<noteq> []"
    and cs: "(case rest of v # d # c # front \<Rightarrow>
         (v = CHR ''v'' \<or> v = CHR ''V'') \<and> d = CHR ''.'' \<and> c \<noteq> newline | _ \<Rightarrow> False)"
    unfolding has_version_suffix_def Let_def body_def [symmetric] r_def [symmetric]
      digits_def [symmetric] rest_def [symmetric] by blast+
  from cs obtain v c front where rest: "rest = v # CHR ''.'' # c # front"
    and v: "v = CHR ''v'' \<or> v = CHR ''V''" and c: "c \<noteq> newline"
    by (auto split: list.splits)
  have "r = take 3 r @ drop 3 r" by simp
  also have "drop 3 r = digits @ rest" unfolding digits_def rest_def by simp
  finally have "rev r = rev (take 3 r @ digits @ rest)" by simp
  then have body: "body = rev front @ [c] @ [CHR ''.'', v] @ rev digits @ rev (take 3 r)"
    unfolding r_def rest by simp
  have dd: "all_digits (rev digits)"
    using dne unfolding all_digits_def digits_def by (auto dest: set_takeWhileD)
  from v have vp: "is_v_part [CHR ''.'', v]" by (auto simp: is_v_part_def)
  have "nl = [] \<or> nl = [newline]" by (simp add: nl_def)
  with b body c vp dd e show ?thesis
    by (intro exI [of _ "rev front"] exI [of _ c] exI [of _ "[CHR ''.'', v]"]
        exI [of _ "rev digits"] exI [of _ "rev (take 3 r)"] exI [of _ nl]) simp
qed

lemma match_has_version_suffix:
  assumes "re_search b = Some m"
  shows "has_version_suffix b"
proof -
  obtain name v n e where m: "m = (name, v, n, e)" by (cases m) auto
  from re_search_sound [OF assms [unfolded m]] obtain pre nl where
    b: "b = pre @ name @ v @ n @ e @ nl" and nl: "nl = [] \<or> nl = [newline]"
    and name: "name \<noteq> []" "newline \<notin> set name"
    and v: "is_v_part v" and n: "all_digits n" and e: "is_nk_ext e" by blast
  from name obtain front c where nm: "name = front @ [c]" and c: "c \<noteq> newline"
    by (cases name rule: rev_cases) auto
  have "has_version_suffix ((pre @ front) @ [c] @ v @ n @ e @ nl)"
    using c v n e nl by (rule version_suffix_compose)
  then show ?thesis by (simp add: b nm)
qed

lemma no_match_iff: "re_search b = None \<longleftrightarrow> \<not> has_version_suffix b"
proof
  assume "re_search b = None"
  show "\<not> has_version_suffix b"
  proof
    assume "has_version_suffix b"
    from version_suffix_decompose [OF this] obtain pre c V N E nl where
      "b = pre @ [c] @ V @ N @ E @ nl" "c \<noteq> newline" "is_v_part V" "all_digits N" "is_nk_ext E"
      "nl = [] \<or> nl = [newline]" by blast
    with re_search_exists [of c V N E nl pre] \<open>re_search b = None\<close> show False by simp
  qed
next
  assume "\<not> has_version_suffix b"
  with match_has_version_suffix show "re_search b = None"
    by (cases "re_search b") auto
qed

text \<open>When the extension of a base name is empty.\<close>

lemma splitext_no_sep:
  assumes "CHR ''/'' \<notin> set b"
  shows "snd (splitext b) = [] \<longleftrightarrow> (\<forall>c \<in> set (dropWhile (\<lambda>x. x \<noteq> CHR ''.'') (rev b)). c = CHR ''.'')"
proof -
  define d where "d = dropWhile (\<lambda>x. x \<noteq> CHR ''.'') (rev b)"
  have sep: "rfind b (CHR ''/'') = -1" using assms by (rule rfind_absent)
  have dot: "rfind b (CHR ''.'') = int (length d) - 1" by (simp add: rfind_def d_def)
  show ?thesis
  proof (cases "d = []")
    case True
    then have "snd (splitext b) = []" by (simp add: splitext_def Let_def sep dot)
    with True show ?thesis by (simp add: d_def [symmetric])
  next
    case False
    then obtain y ys where d: "d = y # ys" by (cases d) auto
    from hd_dropWhile [of "\<lambda>x. x \<noteq> CHR ''.''" "rev b"] False d have y: "y = CHR ''.''"
      by (simp add: d_def [symmetric])
    have tk: "take (length d) b = rev d"
      using take_rfind [of b "CHR ''.''"] by (simp add: rfind_def d_def)
    from tk have "take (length d) b = rev ys @ [y]" by (simp add: d)
    then have "take (length ys) (take (length d) b) = take (length ys) (rev ys @ [y])"
      by (rule arg_cong)
    then have t: "take (length ys) b = rev ys" by (simp add: d)
    have len: "length ys < length b"
      using arg_cong [OF tk, of length] by (simp add: d)
    have idx: "nat (rfind b (CHR ''.'')) = length ys" "rfind b (CHR ''.'') > -1"
      by (simp_all add: dot d)
    from len have ne: "drop (length ys) b \<noteq> []" by simp
    have "snd (splitext b) = [] \<longleftrightarrow> \<not> (\<exists>c \<in> set (rev ys). c \<noteq> CHR ''.'')"
      using ne by (simp add: splitext_def Let_def sep idx t)
    also have "\<dots> \<longleftrightarrow> (\<forall>c \<in> set d. c = CHR ''.'')" by (simp add: d y)
    finally show ?thesis by (simp add: d_def)
  qed
qed

section \<open>The two branches of the next version path\<close>

lemma not_digit_sep: "\<not> is_digit (CHR ''/'')"
  by (simp add: is_digit_def)

lemma nk_ext_no_sep: "is_nk_ext E \<Longrightarrow> CHR ''/'' \<notin> set E"
  by (auto dest!: is_nk_ext_cases)

lemma v_part_no_sep: "is_v_part V \<Longrightarrow> CHR ''/'' \<notin> set V"
  by (auto simp: is_v_part_def)

lemma format_03d_no_sep: "CHR ''/'' \<notin> set (format_03d n)"
  using format_03d_digits not_digit_sep by blast

lemma format_03d_all_digits: "all_digits (format_03d n)"
  by (simp add: all_digits_def format_03d_nonempty format_03d_digits)

lemma next_version_of_match:
  assumes "re_search (basename p) = Some (name, v, n, e)"
  shows "get_next_version_path p = join (dirname p) (name @ v @ format_03d (int_of_digits n + 1) @ e)"
    and "basename (get_next_version_path p) = name @ v @ format_03d (int_of_digits n + 1) @ e"
proof -
  show g: "get_next_version_path p = join (dirname p) (name @ v @ format_03d (int_of_digits n + 1) @ e)"
    by (simp add: get_next_version_path_def Let_def assms)
  from re_search_sound [OF assms] obtain pre nl where
    b: "basename p = pre @ name @ v @ n @ e @ nl" and v: "is_v_part v" and e: "is_nk_ext e" by blast
  from basename_no_sep [of p] have "CHR ''/'' \<notin> set name" unfolding b by simp
  with v e have "CHR ''/'' \<notin> set (name @ v @ format_03d (int_of_digits n + 1) @ e)"
    by (simp add: v_part_no_sep nk_ext_no_sep format_03d_no_sep)
  from basename_join [OF this] g
  show "basename (get_next_version_path p) = name @ v @ format_03d (int_of_digits n + 1) @ e"
    by simp
qed

lemma next_version_of_no_match:
  assumes "re_search (basename p) = None"
  shows "get_next_version_path p =
           join (dirname p) (fst (splitext (basename p)) @ ''.v001'' @ snd (splitext (basename p)))"
    and "basename (get_next_version_path p) =
           fst (splitext (basename p)) @ ''.v001'' @ snd (splitext (basename p))"
proof -
  let ?r = "fst (splitext (basename p))" and ?x = "snd (splitext (basename p))"
  show g: "get_next_version_path p = join (dirname p) (?r @ ''.v001'' @ ?x)"
    by (simp add: get_next_version_path_def Let_def assms split_beta)
  have "set ?r \<union> set ?x = set (basename p)"
    using splitext_append [of "basename p"] by (metis set_append)
  with basename_no_sep [of p] have "CHR ''/'' \<notin> set (?r @ ''.v001'' @ ?x)" by auto
  from basename_join [OF this] g
  show "basename (get_next_version_path p) = ?r @ ''.v001'' @ ?x" by simp
qed

lemma next_version_of_shape:
  assumes "basename p = X @ V @ N @ E" "X \<noteq> []" "newline \<notin> set X"
    "is_v_part V" "all_digits N" "is_nk_ext E"
  shows "get_next_version_path p = join (dirname p) (X @ V @ format_03d (int_of_digits N + 1) @ E)"
    and "basename (get_next_version_path p) = X @ V @ format_03d (int_of_digits N + 1) @ E"
proof -
  have "re_search (basename p) = Some (X, V, N, E)"
    unfolding assms(1) by (rule re_search_complete) (rule assms)+
  from next_version_of_match [OF this]
  show "get_next_version_path p = join (dirname p) (X @ V @ format_03d (int_of_digits N + 1) @ E)"
    and "basename (get_next_version_path p) = X @ V @ format_03d (int_of_digits N + 1) @ E"
    by simp_all
qed



section \<open>The next version path is never the current path\<close>

lemma of_char_lower_char:
  "(of_char (lower_char c) :: nat) =
     (if (65 \<le> (of_char c :: nat) \<and> (of_char c :: nat) \<le> 90) \<or>
         (192 \<le> (of_char c :: nat) \<and> (of_char c :: nat) \<le> 222 \<and> (of_char c :: nat) \<noteq> 215)
      then of_char c + 32 else of_char c)"
  by (simp add: lower_char_def Let_def)

lemma char_eq_of_char: "c = d \<longleftrightarrow> (of_char c :: nat) = of_char d"
  by (metis char_of_char)

lemma lower_char_sep: "lower_char c = CHR ''/'' \<longleftrightarrow> c = CHR ''/''"
  unfolding char_eq_of_char [of _ "CHR ''/''"] of_char_lower_char by (simp split: if_splits)

lemma is_digit_lower_char: "is_digit (lower_char c) \<longleftrightarrow> is_digit c"
  unfolding is_digit_def of_char_lower_char by (simp split: if_splits)

lemma lower_char_digit: "is_digit c \<Longrightarrow> lower_char c = c"
  by (simp add: is_digit_def lower_char_def Let_def)

lemma basename_lower: "basename (lower p) = lower (basename p)"
proof -
  have "(\<lambda>x. x \<noteq> CHR ''/'') \<circ> lower_char = (\<lambda>x. x \<noteq> CHR ''/'')"
    by (rule ext) (simp add: lower_char_sep)
  then show ?thesis
    by (simp add: basename_alt lower_def rev_map takeWhile_map)
qed

lemma trailing_digits_lower:
  assumes "all_digits N" "W \<noteq> []" "\<not> is_digit (last W)"
  shows "takeWhile is_digit (rev (lower (W @ N))) = rev N"
proof -
  have c: "is_digit \<circ> lower_char = is_digit"
    by (rule ext) (simp add: is_digit_lower_char)
  have "takeWhile is_digit (rev (lower (W @ N))) = map lower_char (takeWhile is_digit (rev (W @ N)))"
    by (simp only: lower_def rev_map takeWhile_map c)
  also have "\<dots> = map lower_char (rev N)"
    by (simp only: trailing_digits [OF assms])
  also have "\<dots> = rev N"
    using assms(1) by (intro map_idI) (simp add: all_digits_def lower_char_digit)
  finally show ?thesis .
qed

lemma lower_char_k: "lower_char (CHR ''k'') = CHR ''k''" "lower_char (CHR ''K'') = CHR ''k''"
  by code_simp+

lemma lower_nk_last: "is_nk_ext e \<Longrightarrow> last (lower (w @ e)) = CHR ''k''"
  by (auto dest!: is_nk_ext_cases simp: lower_def lower_char_k)

lemma lower_newline_last: "last (lower (w @ [newline])) = newline"
  by (simp add: lower_def lower_char_def newline_def)

lemma next_version_differs: "lower (get_next_version_path p) \<noteq> lower p"
proof
  assume "lower (get_next_version_path p) = lower p"
  then have "basename (lower (get_next_version_path p)) = basename (lower p)" by simp
  then have eq: "lower (basename (get_next_version_path p)) = lower (basename p)"
    by (simp only: basename_lower)
  show False
  proof (cases "re_search (basename p)")
    case None
    from arg_cong [OF eq, of length] next_version_of_no_match(2) [OF None]
    have "length (fst (splitext (basename p)) @ ''.v001'' @ snd (splitext (basename p)))
            = length (basename p)" by (simp add: lower_def)
    moreover have "length (basename p)
        = length (fst (splitext (basename p))) + length (snd (splitext (basename p)))"
      using arg_cong [OF splitext_append [of "basename p"], of length] by simp
    ultimately show False by simp
  next
    case (Some m)
    obtain name v n e where m: "m = (name, v, n, e)" by (cases m) auto
    note s = Some [unfolded m]
    let ?f = "format_03d (int_of_digits n + 1)"
    from re_search_sound [OF s] obtain pre nl where
      b: "basename p = pre @ name @ v @ n @ e @ nl" and nl: "nl = [] \<or> nl = [newline]"
      and v: "is_v_part v" and n: "all_digits n" and e: "is_nk_ext e" by blast
    from eq next_version_of_match(2) [OF s]
    have eq2: "lower (name @ v @ ?f @ e) = lower (pre @ name @ v @ n @ e @ nl)"
      by (simp add: b)
    from nl show False
    proof
      assume "nl = [newline]"
      with eq2 have "last (lower ((name @ v @ ?f) @ e)) = last (lower ((pre @ name @ v @ n @ e) @ [newline]))"
        by simp
      then have "CHR ''k'' = newline"
        by (simp only: lower_nk_last [OF e] lower_newline_last)
      then show False by (simp add: newline_def)
    next
      assume "nl = []"
      with eq2 have "lower (name @ v @ ?f) @ lower e = lower (pre @ name @ v @ n) @ lower e"
        by (simp add: lower_def)
      then have eq3: "lower ((name @ v) @ ?f) = lower (((pre @ name) @ v) @ n)" by simp
      from v have W: "name @ v \<noteq> []" "\<not> is_digit (last (name @ v))"
        "(pre @ name) @ v \<noteq> []" "\<not> is_digit (last ((pre @ name) @ v))"
        by (auto dest: is_v_part_last)
      have "rev ?f = takeWhile is_digit (rev (lower ((name @ v) @ ?f)))"
        by (rule trailing_digits_lower [symmetric]) (use W format_03d_all_digits in auto)
      also have "\<dots> = takeWhile is_digit (rev (lower (((pre @ name) @ v) @ n)))"
        by (simp only: eq3)
      also have "\<dots> = rev n"
        by (rule trailing_digits_lower) (use W n in auto)
      finally have "?f = n" by simp
      then have "int_of_digits ?f = int_of_digits n" by simp
      then show False by (simp add: int_of_digits_format)
    qed
  qed
qed

section \<open>Fields after each step\<close>

lemma emit_fields [simp]:
  "timer (emit e s) = timer s" "timers (emit e s) = timers s" "root_name (emit e s) = root_name s"
  "backup_interval (emit e s) = backup_interval s" "idle_threshold (emit e s) = idle_threshold s"
  "last_interaction_time (emit e s) = last_interaction_time s" "clock (emit e s) = clock s"
  "ticks (emit e s) = ticks s" "trace (emit e s) = trace s @ [e]"
  by (simp_all add: emit_def)

lemma py_print_fields [simp]:
  "timer (py_print m s) = timer s" "timers (py_print m s) = timers s"
  "root_name (py_print m s) = root_name s"
  "backup_interval (py_print m s) = backup_interval s" "idle_threshold (py_print m s) = idle_threshold s"
  "last_interaction_time (py_print m s) = last_interaction_time s" "clock (py_print m s) = clock s"
  "ticks (py_print m s) = ticks s" "trace (py_print m s) = trace s @ [Print m]"
  by (simp_all add: py_print_def)

lemma track_interaction_fields [simp]:
  "timer (track_interaction s) = timer s" "timers (track_interaction s) = timers s"
  "root_name (track_interaction s) = root_name s"
  "backup_interval (track_interaction s) = backup_interval s"
  "idle_threshold (track_interaction s) = idle_threshold s"
  "last_interaction_time (track_interaction s) = clock s (ticks s)"
  "clock (track_interaction s) = clock s"
  "ticks (track_interaction s) = ticks s + 1" "trace (track_interaction s) = trace s"
  by (simp_all add: track_interaction_def time_time_def)

lemma timer_cancel_fields [simp]:
  "timer (timer_cancel h s) = timer s" "root_name (timer_cancel h s) = root_name s"
  "backup_interval (timer_cancel h s) = backup_interval s"
  "idle_threshold (timer_cancel h s) = idle_threshold s"
  "last_interaction_time (timer_cancel h s) = last_interaction_time s"
  "clock (timer_cancel h s) = clock s" "ticks (timer_cancel h s) = ticks s"
  "trace (timer_cancel h s) = trace s @ [TimerCancel h]"
  by (simp_all add: timer_cancel_def)

lemma timer_start_fields [simp]:
  "timer (timer_start i s) = Some (length (timers s))" "timers (timer_start i s) = timers s @ [Pending]"
  "root_name (timer_start i s) = root_name s"
  "trace (timer_start i s) = trace s @ [TimerStart (length (timers s)) i]"
  by (simp_all add: timer_start_def Let_def)

lemma same_variant:
  "get_next_version_path12 = get_next_version_path"
  "auto_saver_init12 = auto_saver_init"
  "track_interaction12 = track_interaction"
  "start_or_reset_timer12 = start_or_reset_timer"
  by (intro ext, simp add: get_next_version_path12_def get_next_version_path_def
        auto_saver_init12_def auto_saver_init_def track_interaction12_def track_interaction_def
        start_or_reset_timer12_def start_or_reset_timer_def)+

text \<open>The trace only grows, and a reschedule makes no save call.\<close>

lemma saves_emit: "saves (emit e s) = saves s @ (if is_save e then [e] else [])"
  by (simp add: saves_def)

lemma saves_start_or_reset_timer: "saves (start_or_reset_timer s) = saves s"
  by (simp add: start_or_reset_timer_def Let_def saves_def split: option.splits)

section \<open>The example states\<close>

lemma example_armed_eq:
  "example_armed =
    \<lparr>backup_interval = 4800, idle_threshold = 300, timer = Some 0,
     last_interaction_time = 1001, clock = example_clock, ticks = 2,
     root_name = ''/jobs/comp.v001.nk'', timers = [Pending],
     trace = [AddUpdateUI, Print (Ready 80 5), Print (NextSaveIn 80), TimerStart 0 4800]\<rparr>"
  by (simp add: example_armed_def auto_saver_init_def start_or_reset_timer_def
      track_interaction_def time_time_def timer_start_def emit_def py_print_def
      example_clock_def Let_def)

lemma example_idle_eq:
  "example_idle =
    \<lparr>backup_interval = 4800, idle_threshold = 300, timer = Some 0,
     last_interaction_time = 1001, clock = example_clock, ticks = 400,
     root_name = ''/jobs/comp.v001.nk'', timers = [Fired],
     trace = [AddUpdateUI, Print (Ready 80 5), Print (NextSaveIn 80), TimerStart 0 4800]\<rparr>"
  by (simp add: example_idle_def example_armed_eq timer_due_def)

lemma example_closed_eq:
  "example_closed =
    \<lparr>backup_interval = 4800, idle_threshold = 300, timer = Some 0,
     last_interaction_time = 1001, clock = example_clock, ticks = 2,
     root_name = ''Root'', timers = [Fired],
     trace = [AddUpdateUI, Print (Ready 80 5), Print (NextSaveIn 80), TimerStart 0 4800]\<rparr>"
  by (simp add: example_closed_def example_armed_eq timer_due_def)

lemma example_reachable:
  "reachable example_armed" "reachable example_closed"
  "reachable12 example_armed" "reachable12 example_closed"
proof -
  show a: "reachable example_armed"
    unfolding example_armed_def by (intro reachable.load_or_save reachable.created)
  show "reachable example_closed"
    unfolding example_closed_def by (intro reachable.document reachable.due a)
  show b: "reachable12 example_armed"
    unfolding example_armed_def same_variant [symmetric]
    by (intro reachable12.load_or_save12 reachable12.created12)
  show "reachable12 example_closed"
    unfolding example_closed_def by (intro reachable12.document12 reachable12.due12 b)
qed

section \<open>The two files, up to log lines\<close>

lemma without_log_emit:
  "without_log (emit e s) = (if is_print e then without_log s else emit e (without_log s))"
  by (simp add: without_log_def emit_def)

lemma without_log_py_print: "without_log (py_print m s) = without_log s"
  by (simp add: py_print_def without_log_emit)

lemma stop_timer_same: "without_log (stop_timer12 s) = without_log (stop_timer s)"
  by (simp add: stop_timer12_def stop_timer_def Let_def without_log_emit without_log_py_print)

lemma execute_version_up_same: "execute_version_up12 s = execute_version_up s"
proof -
  have d: "lower (root_name s) \<noteq> lower (get_next_version_path (root_name s))"
    using next_version_differs [of "root_name s"] by simp
  then show ?thesis
    by (simp add: execute_version_up12_def execute_version_up_def same_variant time_time_def Let_def)
qed

text \<open>No step looks at the trace: a step from a state without its log lines gives the
  same state, up to log lines, as the step from the state itself.\<close>

lemma track_interaction_log:
  "without_log (track_interaction (without_log s)) = without_log (track_interaction s)"
  by (simp add: without_log_def track_interaction_def time_time_def)

lemma start_or_reset_timer_log:
  "without_log (start_or_reset_timer (without_log s)) = without_log (start_or_reset_timer s)"
  by (simp add: without_log_def start_or_reset_timer_def track_interaction_def time_time_def
      timer_cancel_def timer_start_def emit_def py_print_def Let_def split: option.splits)

lemma stop_timer_log:
  "without_log (stop_timer (without_log s)) = without_log (stop_timer s)"
  by (simp add: without_log_def stop_timer_def timer_cancel_def emit_def py_print_def Let_def
      split: option.splits)

lemma execute_version_up_log:
  "without_log (execute_version_up (without_log s)) = without_log (execute_version_up s)"
proof -
  have d: "lower (root_name s) \<noteq> lower (get_next_version_path (root_name s))"
    using next_version_differs [of "root_name s"] by simp
  have w: "\<And>t. without_log (t\<lparr>ticks := ticks t + 1\<rparr>) = (without_log t)\<lparr>ticks := ticks t + 1\<rparr>"
    by (simp add: without_log_def)
  have f: "ticks (without_log s) = ticks s" "clock (without_log s) = clock s"
    "last_interaction_time (without_log s) = last_interaction_time s"
    "idle_threshold (without_log s) = idle_threshold s" "root_name (without_log s) = root_name s"
    by (simp_all add: without_log_def)
  have e: "\<And>t e. without_log (emit e (without_log t)) = without_log (emit e t)"
    "\<And>t m. without_log (py_print m (without_log t)) = without_log (py_print m t)"
    by (simp_all add: without_log_def emit_def py_print_def)
  have step: "\<And>t u. without_log t = without_log u \<Longrightarrow>
      without_log (start_or_reset_timer t) = without_log (start_or_reset_timer u)"
    by (metis start_or_reset_timer_log)
  show ?thesis
  proof (cases "clock s (ticks s) - last_interaction_time s > idle_threshold s")
    case True
    then show ?thesis
      unfolding execute_version_up_def time_time_def Let_def
      by (simp add: f) (rule step, simp add: without_log_py_print without_log_def)
  next
    case False
    show ?thesis
    proof (cases "root_name s = [] \<or> root_name s = ''Root''")
      case True
      with False show ?thesis
        unfolding execute_version_up_def time_time_def Let_def
        by (auto simp: f without_log_def)
    next
      case nodoc: False
      with False d show ?thesis
        unfolding execute_version_up_def time_time_def Let_def
        by (simp add: f)
           (rule step, simp add: without_log_py_print without_log_emit, simp add: without_log_def emit_def)
    qed
  qed
qed

section \<open>The timer invariant\<close>

lemma pending_free: "Pending \<notin> set xs \<Longrightarrow> filter (\<lambda>t. t = Pending) xs = []"
  by (induction xs) auto

lemma timer_inv_alt:
  "timer_inv s \<longleftrightarrow>
     (timer s = None \<longrightarrow> Pending \<notin> set (timers s)) \<and>
     (\<forall>h. timer s = Some h \<longrightarrow>
        Pending \<notin> set (take h (timers s)) \<and> Pending \<notin> set (drop (Suc h) (timers s)))"
  by (simp add: timer_inv_def split: option.splits)

lemma timer_inv_pending:
  assumes "timer_inv s"
  shows "pending_timers s \<le> 1"
proof (cases "timer s")
  case None
  with assms have "Pending \<notin> set (timers s)" by (simp add: timer_inv_alt)
  then show ?thesis by (simp add: pending_timers_def pending_free)
next
  case (Some h)
  define a where "a = take h (timers s)"
  define b where "b = drop (Suc h) (timers s)"
  from Some assms have ab: "Pending \<notin> set a" "Pending \<notin> set b"
    by (simp_all add: timer_inv_alt a_def b_def)
  show ?thesis
  proof (cases "h < length (timers s)")
    case True
    then have "timers s = a @ timers s ! h # b"
      unfolding a_def b_def by (rule id_take_nth_drop)
    then obtain y where "timers s = a @ y # b" ..
    then have "pending_timers s = length (filter (\<lambda>t. t = Pending) (a @ y # b))"
      by (simp only: pending_timers_def)
    with ab show ?thesis by (simp add: pending_free)
  next
    case False
    then have "timers s = a" by (simp add: a_def)
    with ab show ?thesis by (simp add: pending_timers_def pending_free)
  qed
qed

lemma update_pending_free:
  assumes "Pending \<notin> set xs" "y \<noteq> Pending"
  shows "Pending \<notin> set (xs[h := y])"
proof -
  have "set (xs[h := y]) \<subseteq> insert y (set xs)" by (rule set_update_subset_insert)
  with assms show ?thesis by auto
qed

lemma cancel_clears:
  assumes "Pending \<notin> set (take h xs)" "Pending \<notin> set (drop (Suc h) xs)"
  shows "Pending \<notin> set (if h < length xs \<and> xs ! h = Pending then xs[h := Cancelled] else xs)"
proof (cases "h < length xs")
  case False
  with assms(1) show ?thesis by simp
next
  case True
  then have "set xs = set (take h xs @ xs ! h # drop (Suc h) xs)"
    using id_take_nth_drop [of h xs] by simp
  then have x: "set xs = set (take h xs) \<union> {xs ! h} \<union> set (drop (Suc h) xs)" by simp
  from True have u: "xs[h := Cancelled] = take h xs @ Cancelled # drop (Suc h) xs"
    by (rule upd_conv_take_nth_drop)
  show ?thesis
  proof (cases "xs ! h = Pending")
    case True
    with \<open>h < length xs\<close> assms u show ?thesis by simp
  next
    case False
    with x assms show ?thesis by auto
  qed
qed

lemma timer_inv_fields:
  "timer t = timer s \<Longrightarrow> timers t = timers s \<Longrightarrow> timer_inv t = timer_inv s"
  by (simp add: timer_inv_alt)

lemma timer_inv_created: "timer_inv (auto_saver_init interval threshold clk doc)"
  by (simp add: timer_inv_alt auto_saver_init_def)

lemma timer_inv_track_interaction: "timer_inv s \<Longrightarrow> timer_inv (track_interaction s)"
  by (simp add: timer_inv_fields [of "track_interaction s" s])

lemma cancel_current_clears:
  assumes "timer_inv s"
  shows "Pending \<notin> set (timers (case timer s of Some h \<Rightarrow> timer_cancel h s | None \<Rightarrow> s))"
proof (cases "timer s")
  case None
  with assms show ?thesis by (simp add: timer_inv_alt)
next
  case (Some h)
  with assms cancel_clears [of h "timers s"] show ?thesis
    by (simp add: timer_inv_alt timer_cancel_def emit_def)
qed

lemma timer_inv_start_or_reset_timer:
  assumes "timer_inv s"
  shows "timer_inv (start_or_reset_timer s)"
proof -
  let ?s1 = "track_interaction s"
  let ?s2 = "case timer ?s1 of Some h \<Rightarrow> timer_cancel h ?s1 | None \<Rightarrow> ?s1"
  from assms have "timer_inv ?s1" by (rule timer_inv_track_interaction)
  then have clear: "Pending \<notin> set (timers ?s2)" by (rule cancel_current_clears)
  show ?thesis
  proof (cases "root_name ?s2 \<noteq> [] \<and> root_name ?s2 \<noteq> ''Root''")
    case True
    then have "start_or_reset_timer s =
        timer_start (backup_interval ?s2) (py_print (NextSaveIn (backup_interval ?s2 / 60)) ?s2)"
      by (simp add: start_or_reset_timer_def Let_def)
    with clear show ?thesis by (simp add: timer_inv_alt)
  next
    case False
    then have "start_or_reset_timer s = ?s2" by (auto simp: start_or_reset_timer_def Let_def)
    moreover from clear have "Pending \<notin> set (take k (timers ?s2))"
      "Pending \<notin> set (drop k (timers ?s2))" for k
      by (auto dest: in_set_takeD in_set_dropD)
    ultimately show ?thesis using clear by (simp add: timer_inv_alt)
  qed
qed

lemma timer_inv_stop_timer:
  assumes "timer_inv s"
  shows "timer_inv (stop_timer s)" and "timer_inv (stop_timer12 s)"
proof -
  from cancel_current_clears [OF assms]
  have "Pending \<notin> set (timers (case timer s of Some h \<Rightarrow> (timer_cancel h s)\<lparr>timer := None\<rparr> | None \<Rightarrow> s))"
    "timer (case timer s of Some h \<Rightarrow> (timer_cancel h s)\<lparr>timer := None\<rparr> | None \<Rightarrow> s) = None"
    by (simp_all split: option.splits)
  then show "timer_inv (stop_timer s)" and "timer_inv (stop_timer12 s)"
    by (simp_all add: timer_inv_alt stop_timer_def stop_timer12_def Let_def)
qed

lemma timer_inv_execute_version_up:
  assumes "timer_inv s"
  shows "timer_inv (execute_version_up s)"
proof -
  have i: "\<And>t. timer t = timer s \<Longrightarrow> timers t = timers s \<Longrightarrow> timer_inv (start_or_reset_timer t)"
    using assms timer_inv_fields timer_inv_start_or_reset_timer by blast
  have k: "timer_inv (s\<lparr>ticks := n\<rparr>)" for n
    using assms by (simp add: timer_inv_alt)
  show ?thesis
    unfolding execute_version_up_def time_time_def Let_def
    by (auto intro!: i simp: k)
qed

lemma timer_inv_timer_due:
  assumes "timer_inv s"
  shows "timer_inv (timer_due h s)"
proof -
  have f: "Fired \<noteq> Pending" by simp
  have t: "Pending \<notin> set (take k (xs[h := Fired]))" if "Pending \<notin> set (take k xs)" for k xs
    using update_pending_free [OF that f] by (simp add: take_update_swap)
  have d: "Pending \<notin> set (drop k (xs[h := Fired]))" if "Pending \<notin> set (drop k xs)" for k xs
  proof (cases "h < k")
    case True
    with that show ?thesis by (simp add: drop_update_cancel)
  next
    case False
    then have "drop k (xs[h := Fired]) = (drop k xs)[h - k := Fired]"
      by (simp add: drop_update_swap)
    with update_pending_free [OF that f] show ?thesis by simp
  qed
  have w: "Pending \<notin> set (xs[h := Fired])" if "Pending \<notin> set xs" for xs
    using update_pending_free [OF that f] .
  from assms show ?thesis
    by (simp add: timer_inv_alt timer_due_def t d w)
qed

lemma reachable_timer_inv: "reachable s \<Longrightarrow> timer_inv s"
proof (induction rule: reachable.induct)
  case (document s path)
  then show ?case by (simp add: timer_inv_alt)
qed (simp_all add: timer_inv_created timer_inv_track_interaction timer_inv_start_or_reset_timer
      timer_inv_stop_timer timer_inv_execute_version_up timer_inv_timer_due)

lemma reachable12_timer_inv: "reachable12 s \<Longrightarrow> timer_inv s"
proof (induction rule: reachable12.induct)
  case (document12 s path)
  then show ?case by (simp add: timer_inv_alt)
qed (simp_all add: same_variant execute_version_up_same timer_inv_created
      timer_inv_track_interaction timer_inv_start_or_reset_timer
      timer_inv_stop_timer timer_inv_execute_version_up timer_inv_timer_due)

section \<open>Claims about the next version path\<close>

text \<open>
  C1 (as amended). For every path whose base name is \<open>X.vNNN.nk\<close>, with \<open>X\<close> not empty
  and free of line feeds, \<open>NNN\<close> a non-empty string of digits, and \<open>.v\<close> and \<open>.nk\<close>
  in any letter case, the next version path lies in the same directory and has the base
  name \<open>X.v(NNN+1).nk\<close>: name part, \<open>.v\<close> text and extension are kept as they are, and
  the number is one more than \<open>NNN\<close>, written in decimal with at least 3 digits.
\<close>

theorem next_version_increments:
  assumes "basename p = X @ V @ N @ E"
    and "X \<noteq> []" and "newline \<notin> set X"
    and "is_v_part V" and "all_digits N" and "is_nk_ext E"
  shows "get_next_version_path p = join (dirname p) (X @ V @ format_03d (int_of_digits N + 1) @ E) \<and>
         basename (get_next_version_path p) = X @ V @ format_03d (int_of_digits N + 1) @ E \<and>
         int_of_digits (format_03d (int_of_digits N + 1)) = int_of_digits N + 1 \<and>
         3 \<le> length (format_03d (int_of_digits N + 1)) \<and>
         all_digits (format_03d (int_of_digits N + 1))"
  using next_version_of_shape [OF assms]
  by (simp add: int_of_digits_format format_03d_length format_03d_all_digits)

text \<open>An instance: capitals in \<open>.V\<close> and \<open>.Nk\<close>, four digits going down to three.\<close>

theorem next_version_increments_witness:
  "basename ''/proj/shot010.V0099.Nk'' = ''shot010'' @ ''.V'' @ ''0099'' @ ''.Nk'' \<and>
   ''shot010'' \<noteq> [] \<and> newline \<notin> set ''shot010'' \<and>
   is_v_part ''.V'' \<and> all_digits ''0099'' \<and> is_nk_ext ''.Nk'' \<and>
   get_next_version_path ''/proj/shot010.V0099.Nk'' = ''/proj/shot010.V100.Nk''"
proof -
  have h1: "basename ''/proj/shot010.V0099.Nk'' = ''shot010'' @ ''.V'' @ ''0099'' @ ''.Nk''"
    by code_simp
  have h2: "''shot010'' \<noteq> []" by simp
  have h3: "newline \<notin> set ''shot010''" by code_simp
  have h4: "is_v_part ''.V''" by code_simp
  have h5: "all_digits ''0099''" by code_simp
  have h6: "is_nk_ext ''.Nk''" by code_simp
  have f: "join (dirname ''/proj/shot010.V0099.Nk'')
             (''shot010'' @ ''.V'' @ format_03d (int_of_digits ''0099'' + 1) @ ''.Nk'')
           = ''/proj/shot010.V100.Nk''" by code_simp
  from next_version_increments [OF h1 h2 h3 h4 h5 h6] f
  have "get_next_version_path ''/proj/shot010.V0099.Nk'' = ''/proj/shot010.V100.Nk''"
    by (simp only:)
  with h1 h2 h3 h4 h5 h6 show ?thesis by (simp only: simp_thms)
qed

text \<open>
  C1 as stated allows any extension. With another extension than \<open>.nk\<close> the pattern
  does not match, and a second token is put before the extension instead.
\<close>

theorem other_extension_counterexample:
  "get_next_version_path ''shot.v001.txt'' = ''shot.v001.v001.txt'' \<and>
   get_next_version_path ''shot.v001.txt'' \<noteq> ''shot.v002.txt''"
  by code_simp

text \<open>
  C2. For every path whose base name has no version suffix, that is, whose base name the
  pattern does not match, the function puts \<open>.v001\<close> between the two parts that
  \<^verbatim>\<open>os.path.splitext\<close> makes of the base name. The parts together are the base name. The
  second part is the extension: it is empty exactly when the base name has no dot or
  has nothing but dots up to its last dot, and otherwise it is the last dot with what
  follows it. The extension is kept behind \<open>.v001\<close>, and the directory is joined in front
  as before.
\<close>

theorem unversioned_gets_v001:
  assumes "\<not> has_version_suffix (basename p)"
  shows "fst (splitext (basename p)) @ snd (splitext (basename p)) = basename p \<and>
         (snd (splitext (basename p)) = [] \<longleftrightarrow>
            (\<forall>c \<in> set (dropWhile (\<lambda>x. x \<noteq> CHR ''.'') (rev (basename p))). c = CHR ''.'')) \<and>
         (snd (splitext (basename p)) = [] \<or>
            (hd (snd (splitext (basename p))) = CHR ''.'' \<and>
             CHR ''.'' \<notin> set (tl (snd (splitext (basename p)))))) \<and>
         get_next_version_path p =
           join (dirname p) (fst (splitext (basename p)) @ ''.v001'' @ snd (splitext (basename p))) \<and>
         basename (get_next_version_path p) =
           fst (splitext (basename p)) @ ''.v001'' @ snd (splitext (basename p))"
proof -
  from assms have none: "re_search (basename p) = None" by (rule no_match_iff [THEN iffD2])
  from splitext_append [of "basename p"] splitext_ext_shape [of "basename p"]
    splitext_no_sep [OF basename_no_sep [of p]] next_version_of_no_match [OF none]
  show ?thesis by (intro conjI)
qed

text \<open>A name with a token in the middle and none at the end: \<open>.v001\<close> goes before
  \<open>.nk\<close>.\<close>

theorem unversioned_gets_v001_witness:
  "\<not> has_version_suffix (basename ''/jobs/shot.v2_final.nk'') \<and>
   splitext (basename ''/jobs/shot.v2_final.nk'') = (''shot.v2_final'', ''.nk'') \<and>
   get_next_version_path ''/jobs/shot.v2_final.nk'' = ''/jobs/shot.v2_final.v001.nk''"
proof -
  have h: "\<not> has_version_suffix (basename ''/jobs/shot.v2_final.nk'')" by code_simp
  have s: "splitext (basename ''/jobs/shot.v2_final.nk'') = (''shot.v2_final'', ''.nk'')" by code_simp
  have j: "join (dirname ''/jobs/shot.v2_final.nk'') (''shot.v2_final'' @ ''.v001'' @ ''.nk'')
      = ''/jobs/shot.v2_final.v001.nk''" by code_simp
  from unversioned_gets_v001 [OF h]
  have "get_next_version_path ''/jobs/shot.v2_final.nk'' =
      join (dirname ''/jobs/shot.v2_final.nk'')
        (fst (splitext (basename ''/jobs/shot.v2_final.nk'')) @ ''.v001'' @
         snd (splitext (basename ''/jobs/shot.v2_final.nk'')))" by blast
  then have "get_next_version_path ''/jobs/shot.v2_final.nk'' = ''/jobs/shot.v2_final.v001.nk''"
    by (simp only: s fst_conv snd_conv j)
  with h s show ?thesis by (simp only: simp_thms)
qed

text \<open>
  The search finds the new number in the result of a matching name, so a second
  application goes on from it.
\<close>

lemma version_of_next_of_match:
  assumes "re_search (basename p) = Some (name, v, n, e)"
  shows "re_search (basename (get_next_version_path p))
           = Some (name, v, format_03d (int_of_digits n + 1), e)"
proof -
  from re_search_sound [OF assms] have "name \<noteq> []" "newline \<notin> set name"
    "is_v_part v" "is_nk_ext e" by blast+
  then show ?thesis
    unfolding next_version_of_match(2) [OF assms]
    by (intro re_search_complete format_03d_all_digits)
qed

text \<open>
  C3 (as amended). For every path whose base name ends in the extension \<open>.nk\<close> (in any
  letter case) after a part that holds no line feed and holds some character other than
  a dot, two applications give two paths whose version numbers, as the pattern reads
  them, are one apart: the first result has the version after that of the input (or 1
  when the input has none), the second result the version after that.
\<close>

theorem two_steps_increase:
  assumes "basename p = R @ E" and "is_nk_ext E"
    and "\<exists>c \<in> set R. c \<noteq> CHR ''.''" and "newline \<notin> set R"
  shows "version_of (get_next_version_path p)
           = Some (case version_of p of None \<Rightarrow> 1 | Some k \<Rightarrow> k + 1) \<and>
         version_of (get_next_version_path (get_next_version_path p))
           = Some (case version_of p of None \<Rightarrow> 2 | Some k \<Rightarrow> k + 2)"
proof (cases "re_search (basename p)")
  case (Some m)
  obtain name v n e where m: "m = (name, v, n, e)" by (cases m) auto
  note s = Some [unfolded m]
  note s1 = version_of_next_of_match [OF s]
  note s2 = version_of_next_of_match [OF s1]
  show ?thesis
    by (simp add: version_of_def s s1 s2 int_of_digits_format)
next
  case None
  from basename_no_sep [of p] assms(1) have "CHR ''/'' \<notin> set R" by simp
  from splitext_nk [OF this assms(3,2)] have sp: "splitext (basename p) = (R, E)"
    by (simp add: assms(1))
  from assms(3) have R: "R \<noteq> []" by auto
  have b1: "basename (get_next_version_path p) = R @ ''.v'' @ ''001'' @ E"
    using next_version_of_no_match(2) [OF None] by (simp add: sp)
  have v: "is_v_part ''.v''" by (simp add: is_v_part_def)
  have d: "all_digits ''001''" by (simp add: all_digits_def is_digit_def)
  have s1: "re_search (basename (get_next_version_path p)) = Some (R, ''.v'', ''001'', E)"
    unfolding b1 using R assms(4) v d assms(2) by (rule re_search_complete)
  note s2 = version_of_next_of_match [OF s1]
  have one: "int_of_digits ''001'' = 1" by code_simp
  show ?thesis
    by (simp add: version_of_def None s1 s2 int_of_digits_format one)
qed

theorem two_steps_increase_witness:
  "basename ''/jobs/comp.nk'' = ''comp'' @ ''.nk'' \<and> is_nk_ext ''.nk'' \<and>
   (\<exists>c \<in> set ''comp''. c \<noteq> CHR ''.'') \<and> newline \<notin> set ''comp'' \<and>
   version_of ''/jobs/comp.nk'' = None \<and>
   version_of (get_next_version_path ''/jobs/comp.nk'') = Some 1 \<and>
   version_of (get_next_version_path (get_next_version_path ''/jobs/comp.nk'')) = Some 2"
proof -
  have h1: "basename ''/jobs/comp.nk'' = ''comp'' @ ''.nk''" by code_simp
  have h2: "is_nk_ext ''.nk''" by code_simp
  have h3: "\<exists>c \<in> set ''comp''. c \<noteq> CHR ''.''" by code_simp
  have h4: "newline \<notin> set ''comp''" by code_simp
  have v: "version_of ''/jobs/comp.nk'' = None" by code_simp
  from two_steps_increase [OF h1 h2 h3 h4]
  have "version_of (get_next_version_path ''/jobs/comp.nk'') = Some 1 \<and>
   version_of (get_next_version_path (get_next_version_path ''/jobs/comp.nk'')) = Some 2"
    by (simp add: v)
  with h1 h2 h3 h4 v show ?thesis by (simp only: simp_thms)
qed

text \<open>
  C3 as stated speaks of every path. With another extension than \<open>.nk\<close> both
  applications put \<open>.v001\<close> before the extension: the two results end in the same token,
  and the pattern reads no version number off either.
\<close>

theorem two_steps_repeat_counterexample:
  "get_next_version_path ''a.txt'' = ''a.v001.txt'' \<and>
   get_next_version_path (get_next_version_path ''a.txt'') = ''a.v001.v001.txt'' \<and>
   version_of (get_next_version_path ''a.txt'') = None \<and>
   version_of (get_next_version_path (get_next_version_path ''a.txt'')) = None"
  by code_simp

text \<open>
  C9. A base name with a line feed before its last version token: the lazy group cannot
  pass the line feed, the search starts behind it, and the new name is built from the
  matched groups only. The text up to the line feed, here with the earlier token
  \<open>.v001\<close>, is lost.
\<close>

theorem line_feed_drops_prefix:
  "get_next_version_path (''a.v001'' @ [newline] @ ''b.v002.nk'') = ''b.v003.nk''"
  by code_simp

text \<open>Without a line feed in front of the last token, every earlier token stays.\<close>

lemma earlier_tokens_kept:
  assumes "basename p = X @ V1 @ N1 @ Y @ V2 @ N2 @ E"
    and "newline \<notin> set (X @ N1 @ Y)"
    and "is_v_part V1" and "all_digits N1" and "is_v_part V2" and "all_digits N2" and "is_nk_ext E"
  shows "basename (get_next_version_path p)
           = X @ V1 @ N1 @ Y @ V2 @ format_03d (int_of_digits N2 + 1) @ E"
proof -
  from assms(3) have "newline \<notin> set V1" "V1 \<noteq> []"
    by (auto simp: is_v_part_def newline_def)
  with assms(2) have "X @ V1 @ N1 @ Y \<noteq> []" "newline \<notin> set (X @ V1 @ N1 @ Y)" by auto
  moreover have "basename p = (X @ V1 @ N1 @ Y) @ V2 @ N2 @ E" by (simp add: assms(1))
  ultimately show ?thesis
    using next_version_of_shape(2) [of p "X @ V1 @ N1 @ Y" V2 N2 E] assms(5-7) by simp
qed

text \<open>
  C10. The directory of the result is the directory of the input, for every path.
\<close>

theorem directory_unchanged: "dirname (get_next_version_path p) = dirname p"
proof (cases "re_search (basename p)")
  case None
  let ?n = "fst (splitext (basename p)) @ ''.v001'' @ snd (splitext (basename p))"
  have "basename (join (dirname p) ?n) = ?n"
    using next_version_of_no_match [OF None] by simp
  then have "CHR ''/'' \<notin> set ?n" using basename_no_sep by metis
  from dirname_join [OF this] next_version_of_no_match(1) [OF None] show ?thesis by simp
next
  case (Some m)
  obtain name v n e where m: "m = (name, v, n, e)" by (cases m) auto
  let ?n = "name @ v @ format_03d (int_of_digits n + 1) @ e"
  have "basename (join (dirname p) ?n) = ?n"
    using next_version_of_match [OF Some [unfolded m]] by simp
  then have "CHR ''/'' \<notin> set ?n" using basename_no_sep by metis
  from dirname_join [OF this] next_version_of_match(1) [OF Some [unfolded m]] show ?thesis by simp
qed

section \<open>Claims about the timer payload\<close>

text \<open>
  C4. When the idle duration, the clock reading minus the time of the last interaction,
  is greater than the idle threshold, \<open>execute_version_up\<close> prints the idle line and then
  is \<open>start_or_reset_timer\<close>; the save calls in the trace are those that were there
  before. This holds for both files.
\<close>

theorem idle_skips_save:
  assumes "clock s (ticks s) - last_interaction_time s > idle_threshold s"
  shows "execute_version_up s =
           start_or_reset_timer
             (py_print (UserIdle ((clock s (ticks s) - last_interaction_time s) / 60))
                (s\<lparr>ticks := ticks s + 1\<rparr>)) \<and>
         saves (execute_version_up s) = saves s \<and>
         execute_version_up12 s =
           start_or_reset_timer12
             (py_print (UserIdle ((clock s (ticks s) - last_interaction_time s) / 60))
                (s\<lparr>ticks := ticks s + 1\<rparr>)) \<and>
         saves (execute_version_up12 s) = saves s"
proof -
  let ?s1 = "py_print (UserIdle ((clock s (ticks s) - last_interaction_time s) / 60))
               (s\<lparr>ticks := ticks s + 1\<rparr>)"
  from assms have e: "execute_version_up s = start_or_reset_timer ?s1"
    by (simp add: execute_version_up_def time_time_def Let_def)
  from assms have e12: "execute_version_up12 s = start_or_reset_timer12 ?s1"
    by (simp add: execute_version_up12_def time_time_def Let_def)
  have "saves (start_or_reset_timer ?s1) = saves s"
    by (simp add: saves_start_or_reset_timer) (simp add: saves_def)
  with e e12 show ?thesis by (simp add: same_variant)
qed

text \<open>Four hundred seconds after the last interaction: no save, the timer is set anew.\<close>

theorem idle_skips_save_witness:
  "clock example_idle (ticks example_idle) - last_interaction_time example_idle
     > idle_threshold example_idle \<and>
   saves (execute_version_up example_idle) = [] \<and>
   trace (execute_version_up example_idle) =
     trace example_idle @
       [Print (UserIdle (399 / 60)), TimerCancel 0, Print (NextSaveIn 80), TimerStart 1 4800] \<and>
   timers (execute_version_up example_idle) = [Fired, Pending]"
proof -
  note s = example_idle_eq
  have h: "clock example_idle (ticks example_idle) - last_interaction_time example_idle
     > idle_threshold example_idle"
    by (simp add: s example_clock_def)
  from idle_skips_save [OF h]
  have e: "execute_version_up example_idle =
           start_or_reset_timer
             (py_print (UserIdle ((clock example_idle (ticks example_idle)
                  - last_interaction_time example_idle) / 60))
                (example_idle\<lparr>ticks := ticks example_idle + 1\<rparr>))"
    and v: "saves (execute_version_up example_idle) = saves example_idle" by blast+
  have "saves example_idle = []" by (simp add: s saves_def)
  with v have v': "saves (execute_version_up example_idle) = []" by simp
  have t: "trace (execute_version_up example_idle) =
     trace example_idle @
       [Print (UserIdle (399 / 60)), TimerCancel 0, Print (NextSaveIn 80), TimerStart 1 4800]"
    unfolding e by (simp add: s start_or_reset_timer_def Let_def timer_cancel_def example_clock_def)
  have m: "timers (execute_version_up example_idle) = [Fired, Pending]"
    unfolding e by (simp add: s start_or_reset_timer_def Let_def timer_cancel_def)
  from h v' t m show ?thesis by (simp only: simp_thms)
qed

text \<open>
  C7. When the idle duration is at most the idle threshold and the name of the document
  is empty or \<open>Root\<close>, \<open>execute_version_up\<close> reads the clock and does nothing else: no
  save call is made. This holds for both files.
\<close>

theorem no_document_no_save:
  assumes "clock s (ticks s) - last_interaction_time s \<le> idle_threshold s"
    and "root_name s = [] \<or> root_name s = ''Root''"
  shows "execute_version_up s = s\<lparr>ticks := ticks s + 1\<rparr> \<and>
         saves (execute_version_up s) = saves s \<and>
         execute_version_up12 s = s\<lparr>ticks := ticks s + 1\<rparr> \<and>
         saves (execute_version_up12 s) = saves s"
proof -
  from assms have "execute_version_up s = s\<lparr>ticks := ticks s + 1\<rparr>"
    by (auto simp: execute_version_up_def time_time_def Let_def)
  moreover from assms have "execute_version_up12 s = s\<lparr>ticks := ticks s + 1\<rparr>"
    by (auto simp: execute_version_up12_def time_time_def Let_def)
  ultimately show ?thesis by (simp add: saves_def)
qed

theorem no_document_no_save_witness:
  "clock example_closed (ticks example_closed) - last_interaction_time example_closed
     \<le> idle_threshold example_closed \<and>
   (root_name example_closed = [] \<or> root_name example_closed = ''Root'') \<and>
   execute_version_up example_closed = example_closed\<lparr>ticks := 3\<rparr> \<and>
   execute_version_up12 example_closed = example_closed\<lparr>ticks := 3\<rparr> \<and>
   saves (execute_version_up example_closed) = []"
proof -
  note s = example_closed_eq
  have h1: "clock example_closed (ticks example_closed) - last_interaction_time example_closed
     \<le> idle_threshold example_closed"
    by (simp add: s example_clock_def)
  have h2: "root_name example_closed = [] \<or> root_name example_closed = ''Root''"
    by (simp add: s)
  have t: "ticks example_closed + 1 = 3" and v: "saves example_closed = []"
    by (simp_all add: s saves_def)
  from no_document_no_save [OF h1 h2]
  have e: "execute_version_up example_closed = example_closed\<lparr>ticks := 3\<rparr>"
    and e12: "execute_version_up12 example_closed = example_closed\<lparr>ticks := 3\<rparr>"
    and sv: "saves (execute_version_up example_closed) = []"
    unfolding t v by blast+
  from h1 h2 e e12 sv show ?thesis by blast
qed

text \<open>
  C5 as stated counts the branch without a document among those that end with a
  reschedule. In that branch the method returns at once: after a timer has come due and
  the document has gone, the payload leaves the trace and the time of the last
  interaction as they were, where \<open>start_or_reset_timer\<close> would have marked an interaction
  and cancelled the timer.
\<close>

theorem no_document_no_reschedule_counterexample:
  "reachable example_closed \<and> reachable12 example_closed \<and>
   execute_version_up example_closed = example_closed\<lparr>ticks := 3\<rparr> \<and>
   execute_version_up12 example_closed = example_closed\<lparr>ticks := 3\<rparr> \<and>
   trace (execute_version_up example_closed) = trace example_closed \<and>
   last_interaction_time (execute_version_up example_closed) = 1001 \<and>
   clock example_closed 2 = 1002 \<and>
   trace (start_or_reset_timer (example_closed\<lparr>ticks := 3\<rparr>)) = trace example_closed @ [TimerCancel 0] \<and>
   last_interaction_time (start_or_reset_timer (example_closed\<lparr>ticks := 3\<rparr>)) = 1003"
proof -
  note s = example_closed_eq
  have e: "execute_version_up example_closed = example_closed\<lparr>ticks := 3\<rparr>"
    by (simp add: s execute_version_up_def time_time_def Let_def example_clock_def)
  have e12: "execute_version_up12 example_closed = example_closed\<lparr>ticks := 3\<rparr>"
    by (simp add: s execute_version_up12_def time_time_def Let_def example_clock_def)
  have r: "trace (start_or_reset_timer (example_closed\<lparr>ticks := 3\<rparr>)) = trace example_closed @ [TimerCancel 0]"
    "last_interaction_time (start_or_reset_timer (example_closed\<lparr>ticks := 3\<rparr>)) = 1003"
    by (simp_all add: s start_or_reset_timer_def Let_def example_clock_def)
  have c: "clock example_closed 2 = 1002" by (simp add: s example_clock_def)
  have l: "last_interaction_time (example_closed\<lparr>ticks := 3\<rparr>) = 1001"
    "trace (example_closed\<lparr>ticks := 3\<rparr>) = trace example_closed" by (simp_all add: s)
  from example_reachable(2,4) r c l show ?thesis unfolding e e12 by (simp only: simp_thms)
qed

text \<open>
  C5 (as amended). Every invocation of \<open>execute_version_up\<close> that finds the user idle, or
  finds a document open, ends with \<open>start_or_reset_timer\<close>: after the idle line in the
  first case, after the save-as call in the second. The next version path never equals
  the current path, so with a document open the save-as branch is the one taken. This
  holds for both files.
\<close>

theorem reschedule_unless_no_document:
  assumes "clock s (ticks s) - last_interaction_time s > idle_threshold s \<or>
           (root_name s \<noteq> [] \<and> root_name s \<noteq> ''Root'')"
  shows "execute_version_up s =
           start_or_reset_timer
             (if clock s (ticks s) - last_interaction_time s > idle_threshold s
              then py_print (UserIdle ((clock s (ticks s) - last_interaction_time s) / 60))
                     (s\<lparr>ticks := ticks s + 1\<rparr>)
              else emit (ScriptSaveAs (get_next_version_path (root_name s)))
                     (py_print (VersioningTo (basename (get_next_version_path (root_name s))))
                        (s\<lparr>ticks := ticks s + 1\<rparr>))) \<and>
         execute_version_up12 s =
           start_or_reset_timer12
             (if clock s (ticks s) - last_interaction_time s > idle_threshold s
              then py_print (UserIdle ((clock s (ticks s) - last_interaction_time s) / 60))
                     (s\<lparr>ticks := ticks s + 1\<rparr>)
              else emit (ScriptSaveAs (get_next_version_path12 (root_name s)))
                     (py_print (VersioningTo (basename (get_next_version_path12 (root_name s))))
                        (s\<lparr>ticks := ticks s + 1\<rparr>)))"
proof -
  have d: "lower (root_name s) \<noteq> lower (get_next_version_path (root_name s))"
    using next_version_differs [of "root_name s"] by simp
  from assms d show ?thesis
    by (auto simp: execute_version_up_def execute_version_up12_def time_time_def Let_def same_variant)
qed

theorem reschedule_unless_no_document_witness:
  "(clock example_armed (ticks example_armed) - last_interaction_time example_armed
       > idle_threshold example_armed \<or>
    (root_name example_armed \<noteq> [] \<and> root_name example_armed \<noteq> ''Root'')) \<and>
   trace (execute_version_up example_armed) =
     trace example_armed @
       [Print (VersioningTo ''comp.v002.nk''), ScriptSaveAs ''/jobs/comp.v002.nk'',
        TimerCancel 0, Print (NextSaveIn 80), TimerStart 1 4800]"
proof -
  note s = example_armed_eq
  have h: "clock example_armed (ticks example_armed) - last_interaction_time example_armed
       > idle_threshold example_armed \<or>
    (root_name example_armed \<noteq> [] \<and> root_name example_armed \<noteq> ''Root'')"
    by (simp add: s)
  have i: "\<not> clock example_armed (ticks example_armed) - last_interaction_time example_armed
       > idle_threshold example_armed"
    by (simp add: s example_clock_def)
  have n: "get_next_version_path (root_name example_armed) = ''/jobs/comp.v002.nk''"
    unfolding s by (simp, code_simp)
  have b: "basename ''/jobs/comp.v002.nk'' = ''comp.v002.nk''" by code_simp
  from reschedule_unless_no_document [OF h]
  have "execute_version_up example_armed =
     start_or_reset_timer (emit (ScriptSaveAs ''/jobs/comp.v002.nk'')
        (py_print (VersioningTo ''comp.v002.nk'') (example_armed\<lparr>ticks := ticks example_armed + 1\<rparr>)))"
    by (simp only: i if_False n b)
  then have "trace (execute_version_up example_armed) =
     trace example_armed @
       [Print (VersioningTo ''comp.v002.nk''), ScriptSaveAs ''/jobs/comp.v002.nk'',
        TimerCancel 0, Print (NextSaveIn 80), TimerStart 1 4800]"
    by (simp add: s start_or_reset_timer_def Let_def timer_cancel_def)
  with h show ?thesis by (simp only: simp_thms)
qed

section \<open>Claims about the two files and about the timers\<close>

text \<open>
  C6. The two files do the same. From states that agree up to the printed lines, each
  operation of \<^verbatim>\<open>versionUp12.py\<close> and the same operation of \<^verbatim>\<open>versionUp.py\<close> lead to
  states that agree up to the printed lines again: the same attributes, the same timers,
  and the same calls to the host and to the timers in the same order. The next version
  path is the same string.
\<close>

theorem variants_equivalent:
  assumes "without_log s12 = without_log s"
  shows "get_next_version_path12 p = get_next_version_path p \<and>
         without_log (auto_saver_init12 interval threshold clk doc)
           = without_log (auto_saver_init interval threshold clk doc) \<and>
         without_log (track_interaction12 s12) = without_log (track_interaction s) \<and>
         without_log (start_or_reset_timer12 s12) = without_log (start_or_reset_timer s) \<and>
         without_log (execute_version_up12 s12) = without_log (execute_version_up s) \<and>
         without_log (stop_timer12 s12) = without_log (stop_timer s)"
proof -
  have t: "without_log (track_interaction12 s12) = without_log (track_interaction s)"
    unfolding same_variant
    using track_interaction_log [of s12] track_interaction_log [of s] assms by simp
  have r: "without_log (start_or_reset_timer12 s12) = without_log (start_or_reset_timer s)"
    unfolding same_variant
    using start_or_reset_timer_log [of s12] start_or_reset_timer_log [of s] assms by simp
  have e: "without_log (execute_version_up12 s12) = without_log (execute_version_up s)"
    unfolding execute_version_up_same
    using execute_version_up_log [of s12] execute_version_up_log [of s] assms by simp
  have "without_log (stop_timer12 s12) = without_log (stop_timer s12)"
    by (rule stop_timer_same)
  also have "\<dots> = without_log (stop_timer s)"
    using stop_timer_log [of s12] stop_timer_log [of s] assms by simp
  finally have c: "without_log (stop_timer12 s12) = without_log (stop_timer s)" .
  from t r e c show ?thesis by (simp add: same_variant)
qed

text \<open>
  After \<open>stop_timer\<close> the two traces differ, in the place of the printed line; the states
  agree up to printed lines, and so do the states after a further step.
\<close>

theorem variants_equivalent_witness:
  "without_log (stop_timer12 example_armed) = without_log (stop_timer example_armed) \<and>
   trace (stop_timer12 example_armed) \<noteq> trace (stop_timer example_armed) \<and>
   without_log (execute_version_up12 (stop_timer12 example_armed))
     = without_log (execute_version_up (stop_timer example_armed)) \<and>
   without_log (start_or_reset_timer12 (stop_timer12 example_armed))
     = without_log (start_or_reset_timer (stop_timer example_armed))"
proof -
  have h: "without_log (stop_timer12 example_armed) = without_log (stop_timer example_armed)"
    by (simp add: example_armed_eq stop_timer12_def stop_timer_def timer_cancel_def emit_def
        py_print_def without_log_def Let_def)
  have n: "trace (stop_timer12 example_armed) \<noteq> trace (stop_timer example_armed)"
    by (simp add: example_armed_eq stop_timer12_def stop_timer_def timer_cancel_def emit_def
        py_print_def Let_def)
  from variants_equivalent [OF h] h n show ?thesis by blast
qed

text \<open>
  A reset leaves none of the timers that were there before waiting.
\<close>

lemma reset_cancels_all:
  assumes "timer_inv s"
  shows "Pending \<notin> set (take (length (timers s)) (timers (start_or_reset_timer s)))"
proof -
  let ?s1 = "track_interaction s"
  let ?s2 = "case timer ?s1 of Some h \<Rightarrow> timer_cancel h ?s1 | None \<Rightarrow> ?s1"
  from assms have "timer_inv ?s1" by (rule timer_inv_track_interaction)
  then have clear: "Pending \<notin> set (timers ?s2)" by (rule cancel_current_clears)
  have len: "length (timers ?s2) = length (timers s)"
    by (simp add: timer_cancel_def emit_def split: option.splits)
  have "timers (start_or_reset_timer s) = timers ?s2 \<or>
        timers (start_or_reset_timer s) = timers ?s2 @ [Pending]"
    by (simp add: start_or_reset_timer_def Let_def)
  then have "take (length (timers ?s2)) (timers (start_or_reset_timer s)) = timers ?s2"
    by auto
  with clear len show ?thesis by simp
qed

text \<open>
  C8. In every state that a session reaches, with either file, at most one timer is
  waiting, and \<open>start_or_reset_timer\<close> leaves none of the timers that existed before the
  call waiting: whatever it creates, it has cancelled the pending timer first.
\<close>

theorem one_timer_at_most:
  "(reachable s \<longrightarrow>
      pending_timers s \<le> 1 \<and>
      Pending \<notin> set (take (length (timers s)) (timers (start_or_reset_timer s)))) \<and>
   (reachable12 s \<longrightarrow>
      pending_timers s \<le> 1 \<and>
      Pending \<notin> set (take (length (timers s)) (timers (start_or_reset_timer12 s))))"
  using reachable_timer_inv reachable12_timer_inv timer_inv_pending reset_cancels_all
  unfolding same_variant by blast

text \<open>After a save-as from the armed state: the old timer cancelled, the new one waiting.\<close>

theorem one_timer_at_most_witness:
  "reachable (execute_version_up example_armed) \<and>
   reachable12 (execute_version_up12 example_armed) \<and>
   timers (execute_version_up example_armed) = [Cancelled, Pending] \<and>
   pending_timers (execute_version_up example_armed) \<le> 1 \<and>
   pending_timers (execute_version_up12 example_armed) \<le> 1"
proof -
  have r: "reachable (execute_version_up example_armed)"
    by (intro reachable.version_up example_reachable)
  have r12: "reachable12 (execute_version_up12 example_armed)"
    by (intro reachable12.version_up12 example_reachable)
  have n: "get_next_version_path ''/jobs/comp.v001.nk'' = ''/jobs/comp.v002.nk''" by code_simp
  have l: "lower ''/jobs/comp.v001.nk'' \<noteq> lower ''/jobs/comp.v002.nk''" by code_simp
  have t: "timers (execute_version_up example_armed) = [Cancelled, Pending]"
    by (simp add: example_armed_eq execute_version_up_def time_time_def Let_def example_clock_def
        n l start_or_reset_timer_def timer_cancel_def)
  from one_timer_at_most [of "execute_version_up example_armed"] r
  have p: "pending_timers (execute_version_up example_armed) \<le> 1" by blast
  from one_timer_at_most [of "execute_version_up12 example_armed"] r12
  have p12: "pending_timers (execute_version_up12 example_armed) \<le> 1" by blast
  from r r12 t p p12 show ?thesis by blast
qed

end
